theory Spec2Isabelle
  imports Complex_Main "HOL-Library.FSet" "HOL-Library.Char_ord" "HOL-Library.List_Lexorder"
    "HOL-Library.Sublist"
begin

section \<open>Skill extraction pipeline of \<^verbatim>\<open>skills_extraction_Llama_ds.ipynb\<close>\<close>

text \<open>
  The notebook is a chain of four stages: the text normaliser (column \<^verbatim>\<open>Text_Clean\<close>),
  the skill extractor (\<^verbatim>\<open>extract_skills_llama3_sambanova\<close> and its \<^verbatim>\<open>_kg\<close> sibling),
  the ontology mapper (\<^verbatim>\<open>clean_extracted_skills\<close>, \<^verbatim>\<open>map_to_esco\<close>,
  \<^verbatim>\<open>mapped_skills_str\<close>) and the evaluator (\<^verbatim>\<open>calculate_metrics\<close>).
  Each is embedded below as a HOL function that computes what the Python computes.

  The resume text the normaliser works on is a list of Unicode code points, and the
  character tables of Python are a parameter there. From the extractor on, text is read as
  ASCII: a Python \<^verbatim>\<open>str\<close> is a \<^typ>\<open>string\<close>, and the character classes of
  \<^verbatim>\<open>str\<close> and \<^verbatim>\<open>re\<close> are the ones Python gives to the ASCII characters;
  characters outside ASCII are in none of these classes and are left alone by
  \<^verbatim>\<open>lower\<close>.
\<close>

subsection \<open>Python strings\<close>

text \<open>\<^verbatim>\<open>str.isspace\<close> and the regular expression class \<^verbatim>\<open>\s\<close>: tab, line feed,
  vertical tab, form feed, carriage return, the four separators 0x1C..0x1F and the blank.\<close>

definition isspace :: "char \<Rightarrow> bool" where
  "isspace c \<longleftrightarrow> c \<in> set [CHR 0x09, CHR 0x0A, CHR 0x0B, CHR 0x0C, CHR 0x0D,
                             CHR 0x1C, CHR 0x1D, CHR 0x1E, CHR 0x1F, CHR '' '']"

text \<open>The class \<^verbatim>\<open>\d\<close>, and the characters \<^verbatim>\<open>str.isdigit\<close> accepts.\<close>

definition isdigit_char :: "char \<Rightarrow> bool" where
  "isdigit_char c \<longleftrightarrow> c \<in> set ''0123456789''"

definition islower_char :: "char \<Rightarrow> bool" where
  "islower_char c \<longleftrightarrow> c \<in> set ''abcdefghijklmnopqrstuvwxyz''"

definition isupper_char :: "char \<Rightarrow> bool" where
  "isupper_char c \<longleftrightarrow> c \<in> set ''ABCDEFGHIJKLMNOPQRSTUVWXYZ''"

text \<open>The class \<^verbatim>\<open>\w\<close>: letters, digits and the underscore.\<close>

definition isword :: "char \<Rightarrow> bool" where
  "isword c \<longleftrightarrow> islower_char c \<or> isupper_char c \<or> isdigit_char c \<or> c = CHR ''_''"

definition lower_char :: "char \<Rightarrow> char" where
  "lower_char c =
     (case map_of (zip ''ABCDEFGHIJKLMNOPQRSTUVWXYZ'' ''abcdefghijklmnopqrstuvwxyz'') c of
        Some l \<Rightarrow> l
      | None \<Rightarrow> c)"

text \<open>\<^verbatim>\<open>s.lower()\<close>\<close>

definition lower :: "string \<Rightarrow> string" where
  "lower s = map lower_char s"

text \<open>\<^verbatim>\<open>s.lstrip()\<close>, \<^verbatim>\<open>s.rstrip()\<close> and \<^verbatim>\<open>s.strip()\<close> without argument.\<close>

definition lstrip :: "string \<Rightarrow> string" where
  "lstrip s = dropWhile isspace s"

definition rstrip :: "string \<Rightarrow> string" where
  "rstrip s = rev (dropWhile isspace (rev s))"

definition strip :: "string \<Rightarrow> string" where
  "strip s = rstrip (lstrip s)"

text \<open>\<^verbatim>\<open>s.isdigit()\<close>: every character is a digit and there is at least one.\<close>

definition isdigit :: "string \<Rightarrow> bool" where
  "isdigit s \<longleftrightarrow> s \<noteq> [] \<and> list_all isdigit_char s"

text \<open>\<^verbatim>\<open>s.replace(old, new)\<close> for a non-empty \<^verbatim>\<open>old\<close>: occurrences are replaced from
  left to right and do not overlap.\<close>

fun replace :: "string \<Rightarrow> string \<Rightarrow> string \<Rightarrow> string" where
  "replace old new [] = []"
| "replace old new (c # cs) =
     (if old \<noteq> [] \<and> take (length old) (c # cs) = old
      then new @ replace old new (drop (length old) (c # cs))
      else c # replace old new cs)"

text \<open>\<^verbatim>\<open>sep.join(xs)\<close>\<close>

fun join :: "string \<Rightarrow> string list \<Rightarrow> string" where
  "join sep [] = []"
| "join sep [x] = x"
| "join sep (x # y # ys) = x @ sep @ join sep (y # ys)"

text \<open>\<^verbatim>\<open>s.split(sep)\<close> for a separator of one character: the pieces between the
  occurrences, empty pieces included.\<close>

fun split_char :: "char \<Rightarrow> string \<Rightarrow> string list" where
  "split_char d [] = [[]]"
| "split_char d (c # cs) =
     (case split_char d cs of
        [] \<Rightarrow> (if c = d then [[], []] else [[c]])
      | p # ps \<Rightarrow> (if c = d then [] # p # ps else (c # p) # ps))"

subsection \<open>Regular expressions of the notebook\<close>

text \<open>\<^verbatim>\<open>re.sub(r'C+', rep, s)\<close> for a character class \<open>C\<close>: every maximal run of
  characters of the class is replaced by \<open>rep\<close>.\<close>

function sub_runs :: "('a \<Rightarrow> bool) \<Rightarrow> 'a list \<Rightarrow> 'a list \<Rightarrow> 'a list" where
  "sub_runs C rep [] = []"
| "sub_runs C rep (c # cs) =
     (if C c then rep @ sub_runs C rep (dropWhile C cs) else c # sub_runs C rep cs)"
  by pat_completeness auto
termination
  by (relation "measure (\<lambda>(C, rep, s). length s)")
     (auto simp: less_Suc_eq_le length_dropWhile_le)

text \<open>\<^verbatim>\<open>re.sub(r'C', rep, s)\<close>: every single character of the class is replaced.\<close>

definition sub_each :: "('a \<Rightarrow> bool) \<Rightarrow> 'a list \<Rightarrow> 'a list \<Rightarrow> 'a list" where
  "sub_each C rep s = concat (map (\<lambda>c. if C c then rep else [c]) s)"

text \<open>
  \<^verbatim>\<open>re.split(r',\s*|\s*,\s*', text)\<close>. The separator matches at a position when the rest
  of the text there is a (possibly empty) run of whitespace followed by a comma; the match
  then takes the comma and all whitespace after it. The search is leftmost, so a piece ends
  at the first such position. \<open>split_from cur rest\<close> has read \<open>cur\<close> (reversed) of the
  piece it is in.
\<close>

definition sep_at :: "string \<Rightarrow> bool" where
  "sep_at s \<longleftrightarrow> (case dropWhile isspace s of [] \<Rightarrow> False | c # _ \<Rightarrow> c = CHR '','')"

definition after_sep :: "string \<Rightarrow> string" where
  "after_sep s = dropWhile isspace (tl (dropWhile isspace s))"

function split_from :: "string \<Rightarrow> string \<Rightarrow> string list" where
  "split_from cur [] = [rev cur]"
| "split_from cur (c # cs) =
     (if sep_at (c # cs) then rev cur # split_from [] (after_sep (c # cs))
      else split_from (c # cur) cs)"
  by pat_completeness auto
termination
proof (relation "measure (\<lambda>(cur, s). length s)")
  show "wf (measure (\<lambda>(cur, s). length s))" by simp
next
  fix cur :: string and c cs
  assume "sep_at (c # cs)"
  then obtain r where r: "dropWhile isspace (c # cs) = CHR '','' # r"
    by (auto simp: sep_at_def split: list.splits)
  have "length (after_sep (c # cs)) \<le> length r"
    unfolding after_sep_def r by (simp add: length_dropWhile_le)
  moreover have "length (CHR '','' # r) \<le> length (c # cs)"
    unfolding r [symmetric] by (rule length_dropWhile_le)
  ultimately show "(([], after_sep (c # cs)), (cur, c # cs)) \<in> measure (\<lambda>(cur, s). length s)"
    by simp
next
  fix cur :: string and c cs
  show "((c # cur, cs), (cur, c # cs)) \<in> measure (\<lambda>(cur, s). length s)" by simp
qed

definition re_split_commas :: "string \<Rightarrow> string list" where
  "re_split_commas text = split_from [] text"

text \<open>The characters the class \<^verbatim>\<open>[^a-z0-9\s\.\+#-]\<close> does not match, that is, the ones
  \<^verbatim>\<open>re.sub(r'[^a-z0-9\s\.\+#-]+', '', s)\<close> keeps.\<close>

definition kept_char :: "char \<Rightarrow> bool" where
  "kept_char c \<longleftrightarrow> islower_char c \<or> isdigit_char c \<or> isspace c \<or> c \<in> set ''.+#-''"

subsection \<open>Table cells\<close>

text \<open>A cell of a pandas column read from a CSV file: a string, a number, or the missing
  value \<^verbatim>\<open>NaN\<close>. \<^verbatim>\<open>isinstance(x, str)\<close> holds of the first only.\<close>

datatype cell = Str string | Num int | NaN

subsection \<open>Exceptions\<close>

text \<open>The exceptions the stages can end with: the three failures of a remote call,
  \<^verbatim>\<open>TypeError\<close> of \<^verbatim>\<open>len\<close> on a value that is not a string, and
  \<^verbatim>\<open>AttributeError\<close> of the \<^verbatim>\<open>.str\<close> accessor of pandas.\<close>

datatype error = Timeout | RateLimit | NetworkError | TypeError | AttributeError

fun and_then :: "error + 'a \<Rightarrow> ('a \<Rightarrow> error + 'b) \<Rightarrow> error + 'b" where
  "and_then (Inl e) f = Inl e"
| "and_then (Inr x) f = f x"

subsection \<open>Stage 1: text normaliser\<close>

text \<open>
  A resume text is a list of Unicode code points. What Python takes for a decimal digit
  (the class \<^verbatim>\<open>\d\<close>), a digit in the wider sense of \<^verbatim>\<open>str.isdigit\<close>, an alphanumeric
  character (\<^verbatim>\<open>str.isalnum\<close>; with the underscore these are the class \<^verbatim>\<open>\w\<close>) and
  whitespace (the class \<^verbatim>\<open>\s\<close>, which is also what \<^verbatim>\<open>str.strip\<close> removes), and what
  \<^verbatim>\<open>str.lower\<close> returns, is in the tables of the interpreter, not in the notebook: the
  tables are a parameter. The blank is code point 32 and the underscore code point 95.
\<close>

type_synonym codepoint = nat

type_synonym ustring = "codepoint list"

record unicode =
  py_lower :: "ustring \<Rightarrow> ustring"
  is_decimal :: "codepoint \<Rightarrow> bool"
  is_digit :: "codepoint \<Rightarrow> bool"
  is_alnum :: "codepoint \<Rightarrow> bool"
  is_space :: "codepoint \<Rightarrow> bool"

definition is_word :: "unicode \<Rightarrow> codepoint \<Rightarrow> bool" where
  "is_word db c \<longleftrightarrow> is_alnum db c \<or> c = 95"

text \<open>\<^verbatim>\<open>s.strip()\<close> for a given class of whitespace.\<close>

definition ustrip :: "('a \<Rightarrow> bool) \<Rightarrow> 'a list \<Rightarrow> 'a list" where
  "ustrip sp s = rev (dropWhile sp (rev (dropWhile sp s)))"

text \<open>A cell of the column \<^verbatim>\<open>Text\<close> as \<^verbatim>\<open>read_csv\<close> gives it: a string, a number or
  the missing value.\<close>

datatype text_cell = Text ustring | Number int | Missing

fun is_text :: "text_cell \<Rightarrow> bool" where
  "is_text (Text s) = True"
| "is_text (Number n) = False"
| "is_text Missing = False"

text \<open>
  \<^verbatim>\<open>column.str.method(...)\<close>. The accessor first looks at the column as a whole and
  raises \<^verbatim>\<open>AttributeError\<close> (``Can only use .str accessor with string values'') when
  the column has rows and none of them holds a string. Otherwise the method is applied
  cell by cell, and a cell that is not a string gives the missing value.
\<close>

fun on_text :: "(ustring \<Rightarrow> ustring) \<Rightarrow> text_cell \<Rightarrow> text_cell" where
  "on_text f (Text s) = Text (f s)"
| "on_text f (Number n) = Missing"
| "on_text f Missing = Missing"

definition str_method :: "(ustring \<Rightarrow> ustring) \<Rightarrow> text_cell list \<Rightarrow> error + text_cell list" where
  "str_method f column =
     (if column \<noteq> [] \<and> \<not> list_ex is_text column then Inl AttributeError
      else Inr (map (on_text f) column))"

text \<open>
  The five statements of the normaliser:
  \<^verbatim>\<open>df["Text_Clean"] = df["Text"].str.lower()\<close>, then on \<^verbatim>\<open>df["Text_Clean"]\<close>
  \<^verbatim>\<open>.str.replace(r'\d+', ' ', regex=True)\<close>, \<^verbatim>\<open>.str.replace(r'[^\w\s]', ' ', regex=True)\<close>,
  \<^verbatim>\<open>.str.replace(r'\s+', ' ', regex=True)\<close> and \<^verbatim>\<open>.str.strip()\<close>.
\<close>

definition Text_Clean :: "unicode \<Rightarrow> text_cell list \<Rightarrow> error + text_cell list" where
  "Text_Clean db Text_column =
     and_then (str_method (py_lower db) Text_column) (\<lambda>c1.
     and_then (str_method (sub_runs (is_decimal db) [32]) c1) (\<lambda>c2.
     and_then (str_method (sub_each (\<lambda>c. \<not> is_word db c \<and> \<not> is_space db c) [32]) c2) (\<lambda>c3.
     and_then (str_method (sub_runs (is_space db) [32]) c3) (\<lambda>c4.
     str_method (ustrip (is_space db)) c4))))"

text \<open>What the five statements do to the text of one cell.\<close>

definition text_clean :: "unicode \<Rightarrow> ustring \<Rightarrow> ustring" where
  "text_clean db s =
     ustrip (is_space db) (sub_runs (is_space db) [32]
       (sub_each (\<lambda>c. \<not> is_word db c \<and> \<not> is_space db c) [32]
         (sub_runs (is_decimal db) [32] (py_lower db s))))"

text \<open>The three substitutions of the normaliser on one text, for any classes of decimal
  digits \<open>D\<close>, word characters \<open>W\<close> and whitespace \<open>Sp\<close> and any blank \<open>b\<close>.\<close>

definition three_passes ::
  "('a \<Rightarrow> bool) \<Rightarrow> ('a \<Rightarrow> bool) \<Rightarrow> ('a \<Rightarrow> bool) \<Rightarrow> 'a \<Rightarrow> 'a list \<Rightarrow> 'a list" where
  "three_passes D W Sp b t =
     sub_runs Sp [b] (sub_each (\<lambda>c. \<not> W c \<and> \<not> Sp c) [b] (sub_runs D [b] t))"

text \<open>
  The normalised text in words. A character is kept when it is a word character and
  neither whitespace nor a decimal digit; the words of a text are its maximal runs of kept
  characters; \<open>unwords\<close> puts one blank between two words.
\<close>

definition kept :: "unicode \<Rightarrow> codepoint \<Rightarrow> bool" where
  "kept db c \<longleftrightarrow> is_word db c \<and> \<not> is_space db c \<and> \<not> is_decimal db c"

function words_of :: "('a \<Rightarrow> bool) \<Rightarrow> 'a list \<Rightarrow> 'a list list" where
  "words_of K [] = []"
| "words_of K (c # cs) =
     (if K c then (c # takeWhile K cs) # words_of K (dropWhile K cs) else words_of K cs)"
  by pat_completeness auto
termination
  by (relation "measure (\<lambda>(K, s). length s)")
     (auto simp: less_Suc_eq_le length_dropWhile_le)

fun unwords :: "'a \<Rightarrow> 'a list list \<Rightarrow> 'a list" where
  "unwords b [] = []"
| "unwords b [w] = w"
| "unwords b (w # v # vs) = w @ b # unwords b (v # vs)"

text \<open>
  Tables for the examples: those of Python on the ASCII characters and on superscript two
  (178), capital E with acute (201) and small e with acute (233); no other code point is
  in a class or changed by \<^verbatim>\<open>lower\<close>. \<open>codes\<close> gives the code points of an ASCII text.
\<close>

definition example_unicode :: unicode where
  "example_unicode =
     \<lparr>py_lower = map (\<lambda>c. if 65 \<le> c \<and> c \<le> 90 then c + 32 else if c = 201 then 233 else c),
      is_decimal = (\<lambda>c. 48 \<le> c \<and> c \<le> 57),
      is_digit = (\<lambda>c. 48 \<le> c \<and> c \<le> 57 \<or> c = 178),
      is_alnum = (\<lambda>c. 48 \<le> c \<and> c \<le> 57 \<or> 65 \<le> c \<and> c \<le> 90 \<or> 97 \<le> c \<and> c \<le> 122
                      \<or> c = 178 \<or> c = 201 \<or> c = 233),
      is_space = (\<lambda>c. 9 \<le> c \<and> c \<le> 13 \<or> 28 \<le> c \<and> c \<le> 32)\<rparr>"

definition codes :: "string \<Rightarrow> ustring" where
  "codes s = map of_char s"


subsection \<open>Stage 2: skill extractor\<close>

text \<open>
  The remote inference service is outside the notebook. It is a parameter: \<open>client k msgs\<close>
  is what the \<open>k\<close>-th call of \<^verbatim>\<open>client.chat.completions.create\<close> of the run does when it
  is sent \<open>msgs\<close>: it raises (\<open>Inl\<close>) or returns the text of the completion (\<open>Inr\<close>). The
  number of calls made so far is the state the extractor threads through, so that a failure
  of one call and a success of the next can be told apart.
\<close>

record message =
  role :: string
  content :: string

type_synonym endpoint = "nat \<Rightarrow> message list \<Rightarrow> error + string"

definition MAX_RESUME_CHARS_FOR_LLM :: nat where
  "MAX_RESUME_CHARS_FOR_LLM = 4000"

definition resume_text_for_llm :: "string \<Rightarrow> string" where
  "resume_text_for_llm resume_text =
     (if length resume_text > MAX_RESUME_CHARS_FOR_LLM
      then take MAX_RESUME_CHARS_FOR_LLM resume_text @ ''...''
      else resume_text)"

definition messages :: "string \<Rightarrow> message list" where
  "messages resume_text =
     [\<lparr>role = ''system'',
       content = ''You are a professional resume parser. Extract all technical skills from the resume below. Only output a clean, comma-separated list. No extra words.''\<rparr>,
      \<lparr>role = ''user'',
       content = resume_text_for_llm resume_text @ [CHR 0x0A, CHR 0x0A] @ ''Skills:''\<rparr>]"

definition messages_kg :: "string \<Rightarrow> string \<Rightarrow> string \<Rightarrow> message list" where
  "messages_kg resume_text esco_context_skills_str few_shot_examples_str =
     [\<lparr>role = ''system'',
       content = ''You are a professional resume parser. ''
         @ ''Extract all technical skills from the resume below. ''
         @ ''Only output a clean, comma-separated list. No extra words or introductory phrases.''
         @ [CHR 0x0A, CHR 0x0A] @ few_shot_examples_str @ [CHR 0x0A, CHR 0x0A]
         @ ''For guidance and inspiration, consider skills that are closely related to or are present in the following list of relevant ESCO skills::''
         @ ''['' @ esco_context_skills_str @ ''].''\<rparr>,
      \<lparr>role = ''user'',
       content = ''Resume: '' @ [CHR 0x22] @ resume_text_for_llm resume_text @ [CHR 0x22]
         @ [CHR 0x0A, CHR 0x0A] @ ''Skills:''\<rparr>]"

text \<open>\<^verbatim>\<open>extract_skills_llama3_sambanova(resume_text)\<close>: one call, its result returned as it
  is, its exception not caught. \<^verbatim>\<open>len\<close> of a cell that is not a string raises
  \<^verbatim>\<open>TypeError\<close> before any call is made.\<close>

fun extract_skills_llama3_sambanova :: "endpoint \<Rightarrow> cell \<Rightarrow> nat \<Rightarrow> (error + string) \<times> nat" where
  "extract_skills_llama3_sambanova client (Str resume_text) k =
     (client k (messages resume_text), Suc k)"
| "extract_skills_llama3_sambanova client (Num n) k = (Inl TypeError, k)"
| "extract_skills_llama3_sambanova client NaN k = (Inl TypeError, k)"

fun extract_skills_llama3_sambanova_kg ::
  "endpoint \<Rightarrow> string \<Rightarrow> string \<Rightarrow> cell \<Rightarrow> nat \<Rightarrow> (error + string) \<times> nat" where
  "extract_skills_llama3_sambanova_kg client esco_context_skills_str few_shot_examples_str
       (Str resume_text) k =
     (client k (messages_kg resume_text esco_context_skills_str few_shot_examples_str), Suc k)"
| "extract_skills_llama3_sambanova_kg client esco_context_skills_str few_shot_examples_str
       (Num n) k = (Inl TypeError, k)"
| "extract_skills_llama3_sambanova_kg client esco_context_skills_str few_shot_examples_str
       NaN k = (Inl TypeError, k)"

text \<open>\<^verbatim>\<open>column.progress_apply(f)\<close>: \<open>f\<close> on every cell in the order of the rows. An
  exception of \<open>f\<close> ends the whole statement: no column is assigned and the cells after it
  are not visited.\<close>

fun progress_apply ::
  "(cell \<Rightarrow> nat \<Rightarrow> (error + string) \<times> nat) \<Rightarrow> cell list \<Rightarrow> nat \<Rightarrow> (error + string list) \<times> nat" where
  "progress_apply f [] k = (Inr [], k)"
| "progress_apply f (x # xs) k =
     (case f x k of
        (Inl e, k') \<Rightarrow> (Inl e, k')
      | (Inr y, k') \<Rightarrow>
          (case progress_apply f xs k' of
             (Inl e, k'') \<Rightarrow> (Inl e, k'')
           | (Inr ys, k'') \<Rightarrow> (Inr (y # ys), k'')))"

definition extracted_skills_raw :: "endpoint \<Rightarrow> cell list \<Rightarrow> (error + string list) \<times> nat" where
  "extracted_skills_raw client column =
     progress_apply (extract_skills_llama3_sambanova client) column 0"

definition extracted_skills_raw_kg ::
  "endpoint \<Rightarrow> string \<Rightarrow> string \<Rightarrow> cell list \<Rightarrow> (error + string list) \<times> nat" where
  "extracted_skills_raw_kg client esco_skills_string few_shot_examples_ds column =
     progress_apply
       (extract_skills_llama3_sambanova_kg client esco_skills_string few_shot_examples_ds)
       column 0"

subsection \<open>Stage 3: ontology mapper\<close>

text \<open>\<^verbatim>\<open>clean_extracted_skills(text)\<close>. The three tests of the comprehension read the
  piece \<open>s\<close> as it comes out of the split; the element put into the set is the piece after
  the substitution.\<close>

definition clean_piece :: "string \<Rightarrow> string" where
  "clean_piece s = strip (filter kept_char s)"

definition keep_piece :: "string \<Rightarrow> bool" where
  "keep_piece s \<longleftrightarrow> strip s \<noteq> [] \<and> length (strip s) > 1 \<and> \<not> isdigit (strip s)"

fun clean_extracted_skills :: "cell \<Rightarrow> string fset" where
  "clean_extracted_skills (Str text) =
     (if strip text = [] then {||}
      else
        let text' = replace '' and '' '', '' (replace '';'' '','' (lower text));
            raw_skill_candidates = re_split_commas text'
        in fset_of_list (map clean_piece (filter keep_piece raw_skill_candidates)))"
| "clean_extracted_skills (Num n) = {||}"
| "clean_extracted_skills NaN = {||}"

text \<open>A row of \<^verbatim>\<open>esco_df\<close>: the canonical label and the cell of alternate labels, which
  is missing for a skill without any.\<close>

record esco_row =
  preferredLabel :: string
  altLabels :: cell

text \<open>\<^verbatim>\<open>Series.unique()\<close>: the distinct values in the order of their first occurrence.\<close>

definition unique :: "'a list \<Rightarrow> 'a list" where
  "unique xs = rev (remdups (rev xs))"

text \<open>A dictionary comprehension over a list of pairs: a later pair overrides an earlier
  one with the same key.\<close>

definition dict_of :: "('k \<times> 'v) list \<Rightarrow> ('k \<rightharpoonup> 'v)" where
  "dict_of kvs = map_of (rev kvs)"

definition esco_preferred_lower_list :: "esco_row list \<Rightarrow> string list" where
  "esco_preferred_lower_list esco_df = map (\<lambda>r. lower (preferredLabel r)) esco_df"

definition pref_map :: "esco_row list \<Rightarrow> (string \<rightharpoonup> string)" where
  "pref_map esco_df =
     dict_of (map (\<lambda>label. (lower label, label)) (unique (map preferredLabel esco_df)))"

text \<open>The keys one row gives to \<^verbatim>\<open>alt_map\<close>:
  \<^verbatim>\<open>alt.strip() for alt in row['altLabels'].lower().replace('"', '').split('|') if alt.strip()\<close>\<close>

definition alt_keys :: "esco_row \<Rightarrow> string list" where
  "alt_keys row =
     (case altLabels row of
        Str a \<Rightarrow>
          map strip (filter (\<lambda>alt. strip alt \<noteq> [])
            (split_char CHR ''|'' (replace [CHR 0x22] [] (lower a))))
      | Num n \<Rightarrow> []
      | NaN \<Rightarrow> [])"

definition alt_map :: "esco_row list \<Rightarrow> (string \<rightharpoonup> string)" where
  "alt_map esco_df =
     dict_of (concat (map (\<lambda>row. map (\<lambda>alt. (alt, preferredLabel row)) (alt_keys row)) esco_df))"

text \<open>
  \<^verbatim>\<open>process.extractOne(query, choices, scorer=fuzz.token_set_ratio)\<close> of fuzzywuzzy. The
  scorer is library code and a parameter here: \<open>scorer query choice\<close> is the score, an
  integer from 0 to 100, the library gives to the pair. \<^verbatim>\<open>extractOne\<close> returns the choice
  with the greatest score together with that score, the first one of the list among equal
  scores, and \<^verbatim>\<open>None\<close> for an empty list of choices.
\<close>

fun extractOne :: "(string \<Rightarrow> string \<Rightarrow> nat) \<Rightarrow> string \<Rightarrow> string list \<Rightarrow> (string \<times> nat) option" where
  "extractOne scorer query [] = None"
| "extractOne scorer query (c # cs) =
     Some (fold (\<lambda>choice best. if snd best < scorer query choice
                                then (choice, scorer query choice) else best)
                cs (c, scorer query c))"

text \<open>\<^verbatim>\<open>map_to_esco(skill_name, pref_map_ref, alt_map_ref, esco_lower_list_ref)\<close>; the
  function also reads the global \<^verbatim>\<open>esco_df\<close>, an argument here.\<close>

definition map_to_esco ::
  "(string \<Rightarrow> string \<Rightarrow> nat) \<Rightarrow> esco_row list \<Rightarrow> string \<Rightarrow> (string \<rightharpoonup> string) \<Rightarrow> (string \<rightharpoonup> string)
     \<Rightarrow> string list \<Rightarrow> string option" where
  "map_to_esco scorer esco_df skill_name pref_map_ref alt_map_ref esco_lower_list_ref =
     (let skill = strip (lower skill_name) in
      if skill = [] then None
      else case pref_map_ref skill of
        Some label \<Rightarrow> Some label
      | None \<Rightarrow>
         (case alt_map_ref skill of
            Some label \<Rightarrow> Some label
          | None \<Rightarrow>
             (case extractOne scorer skill esco_lower_list_ref of
                None \<Rightarrow> None
              | Some fuzzy_match_result \<Rightarrow>
                  if snd fuzzy_match_result \<ge> 60
                  then (case find (\<lambda>r. lower (preferredLabel r) = fst fuzzy_match_result) esco_df of
                          None \<Rightarrow> None
                        | Some original_label_row \<Rightarrow> Some (preferredLabel original_label_row))
                  else None)))"

text \<open>\<^verbatim>\<open>filter(None, xs)\<close>: drops \<^verbatim>\<open>None\<close> and the empty string.\<close>

fun filter_None :: "string option list \<Rightarrow> string list" where
  "filter_None [] = []"
| "filter_None (None # xs) = filter_None xs"
| "filter_None (Some x # xs) = (if x = [] then filter_None xs else x # filter_None xs)"

text \<open>
  The value of \<^verbatim>\<open>mapped_skills_str\<close> for one record:
  \<^verbatim>\<open>", ".join(sorted(list(filter(None, [map_to_esco(x, ...) for x in s]))))\<close>.
  Python visits a set in an order of its own; the list is sorted afterwards, so the order
  of the visit does not show, and the model visits the set in increasing order.
\<close>

definition mapped_skills_list ::
  "(string \<Rightarrow> string \<Rightarrow> nat) \<Rightarrow> esco_row list \<Rightarrow> string fset \<Rightarrow> string list" where
  "mapped_skills_list scorer esco_df s =
     sort (filter_None
       (map (\<lambda>x. map_to_esco scorer esco_df x (pref_map esco_df) (alt_map esco_df)
                  (esco_preferred_lower_list esco_df))
            (sorted_list_of_fset s)))"

definition mapped_skills_str ::
  "(string \<Rightarrow> string \<Rightarrow> nat) \<Rightarrow> esco_row list \<Rightarrow> string fset \<Rightarrow> string" where
  "mapped_skills_str scorer esco_df s = join '', '' (mapped_skills_list scorer esco_df s)"

text \<open>The mapper on one record: from the raw extraction string to the mapped skills, as
  the list written to the file and as the set of its labels.\<close>

definition mapper_str :: "(string \<Rightarrow> string \<Rightarrow> nat) \<Rightarrow> esco_row list \<Rightarrow> cell \<Rightarrow> string" where
  "mapper_str scorer esco_df extracted = mapped_skills_str scorer esco_df (clean_extracted_skills extracted)"

definition mapper_set :: "(string \<Rightarrow> string \<Rightarrow> nat) \<Rightarrow> esco_row list \<Rightarrow> cell \<Rightarrow> string fset" where
  "mapper_set scorer esco_df extracted =
     fset_of_list (mapped_skills_list scorer esco_df (clean_extracted_skills extracted))"

subsection \<open>Stage 4: evaluator\<close>

text \<open>
  \<^verbatim>\<open>calculate_metrics(gt_set, pred_set)\<close>. Python divides two integers into a float; the
  model divides exactly, in the rationals. The notebook calls it with the expected skills
  as \<^verbatim>\<open>gt_set\<close> and the mapped skills as \<^verbatim>\<open>pred_set\<close>.
\<close>

definition calculate_metrics :: "string fset \<Rightarrow> string fset \<Rightarrow> rat \<times> rat \<times> rat" where
  "calculate_metrics gt_set pred_set =
     (let tp = fcard (pred_set |\<inter>| gt_set);
          fp = fcard (pred_set |-| gt_set);
          fn = fcard (gt_set |-| pred_set);
          precision = (if tp + fp > 0 then of_nat tp / of_nat (tp + fp) else 0);
          recall = (if tp + fn > 0 then of_nat tp / of_nat (tp + fn) else 0);
          f1 = (if precision + recall > 0
                then 2 * (precision * recall) / (precision + recall) else 0)
      in (precision, recall, f1))"

subsection \<open>A small ontology for the examples\<close>

text \<open>Three skills, two of them with alternate labels, in the layout of
  \<^verbatim>\<open>skills_en.csv\<close>.\<close>

definition example_esco_df :: "esco_row list" where
  "example_esco_df =
     [\<lparr>preferredLabel = ''Python'', altLabels = Str ''python programming | Py''\<rparr>,
      \<lparr>preferredLabel = ''R'', altLabels = Str ''R language''\<rparr>,
      \<lparr>preferredLabel = ''SQL'', altLabels = NaN\<rparr>]"

text \<open>The scores the examples need, in place of the library's scorer: equal strings score
  100, the misspelt \<^verbatim>\<open>pyhton\<close> scores 83 against \<^verbatim>\<open>python\<close>, and the phrases of the
  examples share no letter with the other labels and score 0 against them.\<close>

definition example_scorer :: "string \<Rightarrow> string \<Rightarrow> nat" where
  "example_scorer query choice =
     (if query = choice then 100
      else if query = ''pyhton'' \<and> choice = ''python'' then 83
      else 0)"

text \<open>Two services for the examples: one that answers every call, and one whose first
  call of the run times out and whose later calls answer.\<close>

definition steady_client :: endpoint where
  "steady_client k msgs = Inr ''Python, SQL''"

definition flaky_client :: endpoint where
  "flaky_client k msgs = (if k = 0 then Inl Timeout else Inr ''Python, SQL'')"

subsection \<open>Outcomes of a batch of extractions\<close>

text \<open>
  The two ways a batch over a column can end, told in terms of the calls made; \<open>call i t\<close>
  is what the \<open>i\<close>-th call of the run does for the text \<open>t\<close>. The batch completes with
  the outputs \<open>ys\<close> after \<open>n\<close> calls when every cell is a string, there was one call for
  each cell, and each output is what the call for its cell returned. The batch aborts with
  \<open>e\<close> after \<open>n\<close> calls when some cell \<open>i\<close> is the first to fail: the cells before it
  had one successful call each, and either the call for cell \<open>i\<close> raised \<open>e\<close>, as call
  number \<open>i\<close> and the last one made, or cell \<open>i\<close> is not a string, \<open>e\<close> is the type
  error and no call was made for it.
\<close>

definition batch_completes ::
  "(nat \<Rightarrow> string \<Rightarrow> error + string) \<Rightarrow> cell list \<Rightarrow> string list \<Rightarrow> nat \<Rightarrow> bool" where
  "batch_completes call column ys n \<longleftrightarrow>
     n = length column \<and> length ys = length column \<and>
     (\<forall>i < length column. \<exists>t. column ! i = Str t \<and> call i t = Inr (ys ! i))"

definition batch_aborts ::
  "(nat \<Rightarrow> string \<Rightarrow> error + string) \<Rightarrow> cell list \<Rightarrow> error \<Rightarrow> nat \<Rightarrow> bool" where
  "batch_aborts call column e n \<longleftrightarrow>
     (\<exists>i < length column.
        (\<forall>j < i. \<exists>t y. column ! j = Str t \<and> call j t = Inr y) \<and>
        ((\<exists>t. column ! i = Str t \<and> call i t = Inl e \<and> n = Suc i) \<or>
         ((\<forall>t. column ! i \<noteq> Str t) \<and> e = TypeError \<and> n = i)))"

subsection \<open>Phrases the cleaning step leaves alone\<close>

text \<open>A phrase that \<^verbatim>\<open>clean_extracted_skills\<close> returns as it is when it is a piece of
  its own: made of the characters the substitution keeps, without whitespace at its ends,
  longer than one character and not a number.\<close>

definition survives_cleaning :: "string \<Rightarrow> bool" where
  "survives_cleaning l \<longleftrightarrow>
     list_all kept_char l \<and> strip l = l \<and> length l > 1 \<and> \<not> isdigit l"

text \<open>A piece that \<^verbatim>\<open>re.split\<close> returns whole from a string of pieces joined by a
  comma and a blank: not empty, without whitespace at its ends and without a comma.\<close>

definition plain :: "string \<Rightarrow> bool" where
  "plain l \<longleftrightarrow> l \<noteq> [] \<and> strip l = l \<and> CHR '','' \<notin> set l"

section \<open>Properties\<close>

subsection \<open>Evaluator\<close>

lemma fcard_inter_diff: "fcard (A |\<inter>| B) + fcard (A |-| B) = fcard A"
proof -
  have "fcard ((A |\<inter>| B) |\<union>| (A |-| B)) = fcard (A |\<inter>| B) + fcard (A |-| B)"
    by (rule fcard_funion_disjoint) auto
  moreover have "(A |\<inter>| B) |\<union>| (A |-| B) = A" by auto
  ultimately show ?thesis by simp
qed

lemma harmonic_mean_eq:
  fixes p r :: rat
  shows "0 < p \<Longrightarrow> 0 < r \<Longrightarrow> 2 * (p * r) / (p + r) = 2 / (1 / p + 1 / r)"
  by (simp add: field_simps)

text \<open>
  \<^bold>\<open>C1.\<close> With \<open>M\<close> the mapped and \<open>E\<close> the expected skill set, the evaluator returns
  the precision \<open>|M \<inter> E| / |M|\<close> (0 for an empty \<open>M\<close>), the recall \<open>|M \<inter> E| / |E|\<close>
  (0 for an empty \<open>E\<close>) and as F1 the harmonic mean of the two, the reciprocal of the
  mean of their reciprocals (0 when both are 0). For \<open>M = {python, sql}\<close> and
  \<open>E = {python, r}\<close> the three values are one half each.
\<close>

theorem calculate_metrics_definitions:
  "calculate_metrics E M =
     (let tp = rat_of_nat (fcard (M |\<inter>| E));
          p = (if M = {||} then 0 else tp / rat_of_nat (fcard M));
          r = (if E = {||} then 0 else tp / rat_of_nat (fcard E))
      in (p, r, if p = 0 \<and> r = 0 then 0 else 2 / (1 / p + 1 / r)))
   \<and> calculate_metrics {|''python'', ''r''|} {|''python'', ''sql''|} = (1 / 2, 1 / 2, 1 / 2)"
proof
  define tp where "tp = fcard (M |\<inter>| E)"
  have M: "tp + fcard (M |-| E) = fcard M"
    unfolding tp_def by (rule fcard_inter_diff)
  have E: "tp + fcard (E |-| M) = fcard E"
    unfolding tp_def using fcard_inter_diff [of E M] by (simp add: finter_commute)
  have tpM: "tp \<le> fcard M" and tpE: "tp \<le> fcard E"
    using M E by simp_all
  show "calculate_metrics E M =
     (let tp = rat_of_nat (fcard (M |\<inter>| E));
          p = (if M = {||} then 0 else tp / rat_of_nat (fcard M));
          r = (if E = {||} then 0 else tp / rat_of_nat (fcard E))
      in (p, r, if p = 0 \<and> r = 0 then 0 else 2 / (1 / p + 1 / r)))"
  proof (cases "tp = 0")
    case True
    then show ?thesis
      unfolding calculate_metrics_def Let_def tp_def [symmetric] M E by simp
  next
    case False
    then have c: "0 < fcard M" "0 < fcard E"
      using tpM tpE by linarith+
    then have ne: "M \<noteq> {||}" "E \<noteq> {||}"
      by (auto simp: fcard_fempty)
    have pos: "0 < rat_of_nat tp / rat_of_nat (fcard M)" "0 < rat_of_nat tp / rat_of_nat (fcard E)"
      using False c by (simp_all add: zero_less_divide_iff)
    show ?thesis
      unfolding calculate_metrics_def Let_def tp_def [symmetric] M E
      using ne pos False c harmonic_mean_eq [OF pos] by (simp add: add_pos_pos)
  qed
next
  show "calculate_metrics {|''python'', ''r''|} {|''python'', ''sql''|} = (1 / 2, 1 / 2, 1 / 2)"
    by code_simp
qed

text \<open>
  \<^bold>\<open>C10.\<close> Whatever the two skill sets, each of the three values the evaluator returns
  lies between 0 and 1.
\<close>

theorem calculate_metrics_bounds:
  "(case calculate_metrics gt_set pred_set of
      (precision, recall, f1) \<Rightarrow>
        0 \<le> precision \<and> precision \<le> 1 \<and> 0 \<le> recall \<and> recall \<le> 1 \<and> 0 \<le> f1 \<and> f1 \<le> 1)"
proof -
  define tp where "tp = fcard (pred_set |\<inter>| gt_set)"
  define p where "p = (if tp + fcard (pred_set |-| gt_set) > 0
    then rat_of_nat tp / rat_of_nat (tp + fcard (pred_set |-| gt_set)) else 0)"
  define r where "r = (if tp + fcard (gt_set |-| pred_set) > 0
    then rat_of_nat tp / rat_of_nat (tp + fcard (gt_set |-| pred_set)) else 0)"
  define f1 where "f1 = (if p + r > 0 then 2 * (p * r) / (p + r) else 0)"
  have cm: "calculate_metrics gt_set pred_set = (p, r, f1)"
    unfolding calculate_metrics_def Let_def p_def r_def f1_def tp_def ..
  have p: "0 \<le> p" "p \<le> 1"
    unfolding p_def by (auto simp: divide_le_eq_1)
  have r: "0 \<le> r" "r \<le> 1"
    unfolding r_def by (auto simp: divide_le_eq_1)
  have "p * r \<le> p * 1"
    using p r by (intro mult_left_mono) auto
  moreover have "p * r \<le> 1 * r"
    using p r by (intro mult_right_mono) auto
  ultimately have "2 * (p * r) \<le> p + r"
    by simp
  then have f: "0 \<le> f1" "f1 \<le> 1"
    unfolding f1_def using p r by (auto simp: divide_le_eq_1)
  show ?thesis
    unfolding cm using p r f by simp
qed

subsection \<open>Stripping and substitution\<close>

lemma rstrip_prefix: "\<exists>b. s = rstrip s @ b \<and> list_all isspace b"
proof -
  have "rev s = takeWhile isspace (rev s) @ dropWhile isspace (rev s)" by simp
  then have "s = rev (dropWhile isspace (rev s)) @ rev (takeWhile isspace (rev s))"
    by (metis rev_append rev_rev_ident)
  moreover have "list_all isspace (rev (takeWhile isspace (rev s)))"
    by (simp add: list_all_iff) (meson set_takeWhileD)
  ultimately show ?thesis unfolding rstrip_def by blast
qed

lemma lstrip_suffix: "\<exists>a. s = a @ lstrip s \<and> list_all isspace a"
proof -
  have "s = takeWhile isspace s @ dropWhile isspace s" by simp
  moreover have "list_all isspace (takeWhile isspace s)"
    by (simp add: list_all_iff) (meson set_takeWhileD)
  ultimately show ?thesis unfolding lstrip_def by blast
qed

lemma strip_infix: "\<exists>a b. s = a @ strip s @ b \<and> list_all isspace a \<and> list_all isspace b"
proof -
  obtain a where a: "s = a @ lstrip s" "list_all isspace a" using lstrip_suffix by blast
  obtain b where b: "lstrip s = rstrip (lstrip s) @ b" "list_all isspace b"
    using rstrip_prefix by blast
  have "s = a @ strip s @ b" unfolding strip_def using a(1) b(1) by simp
  then show ?thesis using a(2) b(2) by blast
qed

lemma set_strip: "set (strip s) \<subseteq> set s"
proof -
  obtain a b where "s = a @ strip s @ b" using strip_infix by blast
  then have "set s = set a \<union> set (strip s) \<union> set b" by (metis set_append Un_assoc)
  then show ?thesis by blast
qed

lemma lstrip_hd: "lstrip s \<noteq> [] \<Longrightarrow> \<not> isspace (hd (lstrip s))"
  unfolding lstrip_def by (rule hd_dropWhile)

lemma rstrip_last: "rstrip s \<noteq> [] \<Longrightarrow> \<not> isspace (last (rstrip s))"
  unfolding rstrip_def by (simp add: last_rev hd_dropWhile)

lemma rstrip_hd: "rstrip s \<noteq> [] \<Longrightarrow> hd (rstrip s) = hd s"
proof -
  assume ne: "rstrip s \<noteq> []"
  obtain b where "s = rstrip s @ b" using rstrip_prefix by blast
  then show ?thesis using ne by (metis hd_append2)
qed

lemma strip_ends: "strip s \<noteq> [] \<Longrightarrow> \<not> isspace (hd (strip s)) \<and> \<not> isspace (last (strip s))"
  unfolding strip_def using rstrip_hd [of "lstrip s"] rstrip_last [of "lstrip s"] lstrip_hd [of s]
  by (metis rstrip_def rev.simps(1) dropWhile.simps(1))

lemma lstrip_id: "s \<noteq> [] \<Longrightarrow> \<not> isspace (hd s) \<Longrightarrow> lstrip s = s"
  unfolding lstrip_def by (cases s) auto

lemma rstrip_id: "s \<noteq> [] \<Longrightarrow> \<not> isspace (last s) \<Longrightarrow> rstrip s = s"
  unfolding rstrip_def by (cases "rev s") (auto simp: last_rev [symmetric] hd_rev)

lemma strip_Nil [simp]: "strip [] = []"
  by (simp add: strip_def lstrip_def rstrip_def)

lemma strip_id: "s \<noteq> [] \<Longrightarrow> \<not> isspace (hd s) \<Longrightarrow> \<not> isspace (last s) \<Longrightarrow> strip s = s"
  by (simp add: strip_def lstrip_id rstrip_id)

lemma strip_strip: "strip (strip s) = strip s"
proof (cases "strip s = []")
  case True then show ?thesis by simp
next
  case False then show ?thesis using strip_ends [OF False] by (simp add: strip_id)
qed

lemma set_sub_runs: "set (sub_runs C rep s) \<subseteq> {c \<in> set s. \<not> C c} \<union> set rep"
proof (induction C rep s rule: sub_runs.induct)
  case (1 C rep) then show ?case by simp
next
  case (2 C rep c cs)
  show ?case
  proof (cases "C c")
    case True
    have "set (dropWhile C cs) \<subseteq> set cs" by (meson set_dropWhileD subsetI)
    with True 2(1) show ?thesis by auto
  next
    case False with 2(2) show ?thesis by auto
  qed
qed

lemma set_sub_each: "set (sub_each C rep s) \<subseteq> {c \<in> set s. \<not> C c} \<union> set rep"
  unfolding sub_each_def by (auto split: if_splits)

lemma sub_runs_hd: "s \<noteq> [] \<Longrightarrow> \<not> C (hd s) \<Longrightarrow> sub_runs C rep s \<noteq> [] \<and> hd (sub_runs C rep s) = hd s"
  by (cases s) auto

lemma isspace_blank: "isspace CHR '' ''"
  by (simp add: isspace_def)

subsection \<open>Ontology tables\<close>

lemma set_unique: "set (unique xs) = set xs"
  by (simp add: unique_def)

lemma dict_of_SomeD: "dict_of kvs k = Some v \<Longrightarrow> (k, v) \<in> set kvs"
  unfolding dict_of_def by (auto dest: map_of_SomeD)

lemma dict_of_None_iff: "dict_of kvs k = None \<longleftrightarrow> k \<notin> fst ` set kvs"
  by (simp add: dict_of_def map_of_eq_None_iff)

lemma pref_map_SomeD:
  "pref_map esco_df k = Some l \<Longrightarrow> l \<in> preferredLabel ` set esco_df \<and> lower l = k"
  unfolding pref_map_def by (auto dest!: dict_of_SomeD simp: set_unique)

lemma pref_map_None_iff:
  "pref_map esco_df k = None \<longleftrightarrow> k \<notin> lower ` preferredLabel ` set esco_df"
  unfolding pref_map_def by (force simp: dict_of_None_iff set_unique image_iff)

lemma alt_map_SomeD:
  "alt_map esco_df k = Some l \<Longrightarrow> \<exists>row \<in> set esco_df. k \<in> set (alt_keys row) \<and> l = preferredLabel row"
  unfolding alt_map_def by (auto dest!: dict_of_SomeD)

lemma alt_map_None_iff:
  "alt_map esco_df k = None \<longleftrightarrow> (\<forall>row \<in> set esco_df. k \<notin> set (alt_keys row))"
  unfolding alt_map_def by (force simp: dict_of_None_iff image_iff)

lemma alt_keys_nonempty: "k \<in> set (alt_keys row) \<Longrightarrow> k \<noteq> []"
  unfolding alt_keys_def by (auto split: cell.splits)

subsection \<open>Best fuzzy match\<close>

lemma fold_best:
  fixes scorer :: "string \<Rightarrow> string \<Rightarrow> nat" and q :: string
  defines "step \<equiv> (\<lambda>choice best. if snd best < scorer q choice
                                    then (choice, scorer q choice) else best)"
  assumes "fst b \<in> A" "snd b = scorer q (fst b)"
  shows "fst (fold step cs b) \<in> A \<union> set cs
       \<and> snd (fold step cs b) = scorer q (fst (fold step cs b))
       \<and> snd b \<le> snd (fold step cs b)
       \<and> (\<forall>c \<in> set cs. scorer q c \<le> snd (fold step cs b))"
  using assms(2,3)
proof (induction cs arbitrary: b A)
  case Nil
  then show ?case by simp
next
  case (Cons c cs)
  have 1: "fst (step c b) \<in> insert c A" and 2: "snd (step c b) = scorer q (fst (step c b))"
    using Cons.prems by (auto simp: step_def)
  have 3: "snd b \<le> snd (step c b)" and 4: "scorer q c \<le> snd (step c b)"
    by (auto simp: step_def)
  from Cons.IH [OF 1 2] 3 4 show ?case
    by (auto intro: order_trans)
qed

lemma extractOne_SomeD:
  fixes scorer :: "string \<Rightarrow> string \<Rightarrow> nat"
  assumes "extractOne scorer q cs = Some r"
  shows "fst r \<in> set cs \<and> snd r = scorer q (fst r) \<and> (\<forall>c \<in> set cs. scorer q c \<le> snd r)"
proof (cases cs)
  case Nil
  with assms show ?thesis by simp
next
  case (Cons c cs')
  have "fst (c, scorer q c) \<in> {c}" "snd (c, scorer q c) = scorer q (fst (c, scorer q c))"
    by simp_all
  from fold_best [of "(c, scorer q c)" "{c}" scorer q cs', OF this] assms Cons
  show ?thesis by auto
qed

lemma extractOne_None_iff: "extractOne scorer q cs = None \<longleftrightarrow> cs = []"
  by (cases cs) simp_all

lemma find_lower_label:
  assumes "m \<in> set (esco_preferred_lower_list esco_df)"
  shows "\<exists>r. find (\<lambda>r. lower (preferredLabel r) = m) esco_df = Some r
             \<and> r \<in> set esco_df \<and> lower (preferredLabel r) = m"
proof (cases "find (\<lambda>r. lower (preferredLabel r) = m) esco_df")
  case None
  with assms show ?thesis by (auto simp: find_None_iff esco_preferred_lower_list_def)
next
  case (Some r)
  then show ?thesis by (auto simp: find_Some_iff in_set_conv_nth)
qed

subsection \<open>Candidate phrases\<close>

lemma lower_char_changes: "lower_char c \<noteq> c \<Longrightarrow> isupper_char c"
proof -
  assume "lower_char c \<noteq> c"
  then obtain l where
    "map_of (zip ''ABCDEFGHIJKLMNOPQRSTUVWXYZ'' ''abcdefghijklmnopqrstuvwxyz'') c = Some l"
    unfolding lower_char_def by (auto split: option.splits)
  then have "(c, l) \<in> set (zip ''ABCDEFGHIJKLMNOPQRSTUVWXYZ'' ''abcdefghijklmnopqrstuvwxyz'')"
    by (rule map_of_SomeD)
  then show ?thesis
    unfolding isupper_char_def by (rule set_zip_leftD)
qed

lemma kept_char_not_upper: "kept_char c \<Longrightarrow> \<not> isupper_char c"
  unfolding kept_char_def islower_char_def isdigit_char_def isspace_def isupper_char_def
  by (elim disjE) auto

lemma kept_char_lower: "kept_char c \<Longrightarrow> lower_char c = c"
  using lower_char_changes kept_char_not_upper by blast

lemma clean_piece_normal: "strip (lower (clean_piece s)) = clean_piece s"
proof -
  have "set (clean_piece s) \<subseteq> set (filter kept_char s)"
    unfolding clean_piece_def by (rule set_strip)
  then have "\<forall>c \<in> set (clean_piece s). lower_char c = c"
    by (auto dest: kept_char_lower)
  then have "lower (clean_piece s) = clean_piece s"
    unfolding lower_def by (simp add: map_idI)
  then show ?thesis
    by (simp add: clean_piece_def strip_strip)
qed

lemma candidate_normal:
  assumes "p |\<in>| clean_extracted_skills extracted"
  shows "strip (lower p) = p"
proof (cases extracted)
  case (Str t)
  with assms obtain s where "p = clean_piece s"
    by (auto simp: Let_def fset_of_list_elem split: if_splits)
  then show ?thesis by (simp add: clean_piece_normal)
next
  case (Num n)
  with assms show ?thesis by simp
next
  case NaN
  with assms show ?thesis by simp
qed

lemma candidate_kept:
  assumes "p |\<in>| clean_extracted_skills extracted"
  shows "list_all kept_char p"
proof (cases extracted)
  case (Str t)
  with assms obtain s where "p = clean_piece s"
    by (auto simp: Let_def fset_of_list_elem split: if_splits)
  moreover have "set (clean_piece s) \<subseteq> set (filter kept_char s)"
    unfolding clean_piece_def by (rule set_strip)
  ultimately show ?thesis by (auto simp: list_all_iff)
next
  case (Num n)
  with assms show ?thesis by simp
next
  case NaN
  with assms show ?thesis by simp
qed

subsection \<open>The three ways of \<open>map_to_esco\<close>\<close>

lemma map_to_esco_pref:
  assumes "strip (lower p) \<noteq> []" "pref_map_ref (strip (lower p)) = Some l"
  shows "map_to_esco scorer esco_df p pref_map_ref alt_map_ref lower_list = Some l"
  using assms by (simp add: map_to_esco_def Let_def)

lemma map_to_esco_alt:
  assumes "strip (lower p) \<noteq> []" "pref_map_ref (strip (lower p)) = None"
    "alt_map_ref (strip (lower p)) = Some l"
  shows "map_to_esco scorer esco_df p pref_map_ref alt_map_ref lower_list = Some l"
  using assms by (simp add: map_to_esco_def Let_def)

lemma map_to_esco_fuzzy:
  assumes "pref_map_ref (strip (lower p)) = None" "alt_map_ref (strip (lower p)) = None"
  shows "map_to_esco scorer esco_df p pref_map_ref alt_map_ref lower_list =
     (if strip (lower p) = [] then None
      else case extractOne scorer (strip (lower p)) lower_list of
        None \<Rightarrow> None
      | Some fuzzy_match_result \<Rightarrow>
          if snd fuzzy_match_result \<ge> 60
          then (case find (\<lambda>r. lower (preferredLabel r) = fst fuzzy_match_result) esco_df of
                  None \<Rightarrow> None
                | Some original_label_row \<Rightarrow> Some (preferredLabel original_label_row))
          else None)"
  using assms by (simp add: map_to_esco_def Let_def)

lemma map_to_esco_label:
  fixes scorer :: "string \<Rightarrow> string \<Rightarrow> nat"
  assumes "map_to_esco scorer esco_df p (pref_map esco_df) (alt_map esco_df)
             (esco_preferred_lower_list esco_df) = Some l"
  shows "l \<in> preferredLabel ` set esco_df"
proof (cases "pref_map esco_df (strip (lower p))")
  case (Some l')
  with assms have "l' = l" by (simp add: map_to_esco_def Let_def split: if_splits)
  with Some show ?thesis using pref_map_SomeD by blast
next
  case None
  show ?thesis
  proof (cases "alt_map esco_df (strip (lower p))")
    case (Some l')
    with None assms have "l' = l" by (simp add: map_to_esco_def Let_def split: if_splits)
    with Some show ?thesis using alt_map_SomeD by blast
  next
    case None2: None
    from assms obtain r where
      "find (\<lambda>r. lower (preferredLabel r) = fst (the (extractOne scorer (strip (lower p))
          (esco_preferred_lower_list esco_df)))) esco_df = Some r" "l = preferredLabel r"
      unfolding map_to_esco_fuzzy [where pref_map_ref = "pref_map esco_df"
          and alt_map_ref = "alt_map esco_df" and p = p, OF None None2]
      by (auto split: if_splits option.splits)
    then show ?thesis by (auto simp: find_Some_iff)
  qed
qed

subsection \<open>The mapped skills of a record\<close>

lemma set_filter_None: "set (filter_None xs) = {l. l \<noteq> [] \<and> Some l \<in> set xs}"
  by (induction xs rule: filter_None.induct) auto

lemma set_mapped_skills_list:
  "set (mapped_skills_list scorer esco_df s) =
     {l. l \<noteq> [] \<and> (\<exists>p. p |\<in>| s \<and> map_to_esco scorer esco_df p (pref_map esco_df)
          (alt_map esco_df) (esco_preferred_lower_list esco_df) = Some l)}"
  unfolding mapped_skills_list_def by (force simp: set_filter_None image_iff)

lemma fset_mapper_set:
  "fset (mapper_set scorer esco_df extracted) =
     {l. l \<noteq> [] \<and> (\<exists>p. p |\<in>| clean_extracted_skills extracted \<and>
        map_to_esco scorer esco_df p (pref_map esco_df)
          (alt_map esco_df) (esco_preferred_lower_list esco_df) = Some l)}"
  unfolding mapper_set_def by (simp add: fset_of_list.rep_eq set_mapped_skills_list)

subsection \<open>Exact matches\<close>

text \<open>
  \<^bold>\<open>C2.\<close> Let \<open>p\<close> be a candidate phrase of a record. If \<open>p\<close> is, up to case, a
  canonical label \<open>L\<close> (not the empty string, which \<^verbatim>\<open>read_csv\<close> reads as a missing
  value and never as a label), the mapper returns what the table of canonical labels holds for
  \<open>p\<close>: a canonical label that equals \<open>p\<close> up to case, and \<open>L\<close> itself when no other
  canonical label does. This is so whether or not \<open>p\<close> is an alternate label too. If \<open>p\<close>
  is no canonical label but an alternate label of a row, the mapper returns what the table
  of alternate labels holds for \<open>p\<close>: the canonical label of a row with that alternate
  label, and of that very row when the alternate label belongs to one canonical label only.
  Neither result depends on the fuzzy scorer.
\<close>

theorem map_to_esco_exact_precedence:
  fixes scorer :: "string \<Rightarrow> string \<Rightarrow> nat"
  assumes "p |\<in>| clean_extracted_skills extracted"
  shows
    "(\<forall>L \<in> preferredLabel ` set esco_df. L \<noteq> [] \<and> lower L = p \<longrightarrow>
        map_to_esco scorer esco_df p (pref_map esco_df) (alt_map esco_df)
          (esco_preferred_lower_list esco_df) = pref_map esco_df p
        \<and> (\<exists>L' \<in> preferredLabel ` set esco_df. pref_map esco_df p = Some L' \<and> lower L' = p)
        \<and> ((\<forall>L2 \<in> preferredLabel ` set esco_df. lower L2 = p \<longrightarrow> L2 = L)
             \<longrightarrow> pref_map esco_df p = Some L))
   \<and> (\<forall>row \<in> set esco_df. p \<in> set (alt_keys row) \<and> p \<notin> lower ` preferredLabel ` set esco_df \<longrightarrow>
        map_to_esco scorer esco_df p (pref_map esco_df) (alt_map esco_df)
          (esco_preferred_lower_list esco_df) = alt_map esco_df p
        \<and> (\<exists>row' \<in> set esco_df. alt_map esco_df p = Some (preferredLabel row')
               \<and> p \<in> set (alt_keys row'))
        \<and> ((\<forall>row2 \<in> set esco_df. p \<in> set (alt_keys row2)
                \<longrightarrow> preferredLabel row2 = preferredLabel row)
             \<longrightarrow> alt_map esco_df p = Some (preferredLabel row)))"
proof (intro conjI ballI impI; (elim conjE)?)
  have norm: "strip (lower p) = p"
    using assms by (rule candidate_normal)
  {
    fix L
    assume L: "L \<in> preferredLabel ` set esco_df" "L \<noteq> []" "lower L = p"
    then have "pref_map esco_df p \<noteq> None"
      by (auto simp: pref_map_None_iff)
    then obtain L' where L': "pref_map esco_df p = Some L'"
      by auto
    have ne: "p \<noteq> []"
      using L by (auto simp: lower_def)
    show "map_to_esco scorer esco_df p (pref_map esco_df) (alt_map esco_df)
          (esco_preferred_lower_list esco_df) = pref_map esco_df p"
      using map_to_esco_pref [of p "pref_map esco_df" L'] norm ne L' by simp
    show "\<exists>L' \<in> preferredLabel ` set esco_df. pref_map esco_df p = Some L' \<and> lower L' = p"
      using L' pref_map_SomeD [OF L'] by blast
    assume "\<forall>L2 \<in> preferredLabel ` set esco_df. lower L2 = p \<longrightarrow> L2 = L"
    then show "pref_map esco_df p = Some L"
      using L' pref_map_SomeD [OF L'] by blast
  }
  {
    fix row
    assume row: "row \<in> set esco_df" "p \<in> set (alt_keys row)"
      "p \<notin> lower ` preferredLabel ` set esco_df"
    have none: "pref_map esco_df p = None"
      using row(3) by (simp add: pref_map_None_iff)
    have "alt_map esco_df p \<noteq> None"
      using row(1,2) by (auto simp: alt_map_None_iff)
    then obtain l where l: "alt_map esco_df p = Some l"
      by auto
    have ne: "p \<noteq> []"
      using row(2) by (rule alt_keys_nonempty)
    show "map_to_esco scorer esco_df p (pref_map esco_df) (alt_map esco_df)
          (esco_preferred_lower_list esco_df) = alt_map esco_df p"
      using map_to_esco_alt [of p "pref_map esco_df" "alt_map esco_df" l] norm ne none l by simp
    show "\<exists>row' \<in> set esco_df. alt_map esco_df p = Some (preferredLabel row')
               \<and> p \<in> set (alt_keys row')"
      using l alt_map_SomeD [OF l] by blast
    assume "\<forall>row2 \<in> set esco_df. p \<in> set (alt_keys row2)
                \<longrightarrow> preferredLabel row2 = preferredLabel row"
    then show "alt_map esco_df p = Some (preferredLabel row)"
      using l alt_map_SomeD [OF l] by auto
  }
qed


theorem map_to_esco_exact_precedence_witness:
  "''sql'' |\<in>| clean_extracted_skills (Str ''R language, SQL'')
   \<and> map_to_esco example_scorer example_esco_df ''sql'' (pref_map example_esco_df)
        (alt_map example_esco_df) (esco_preferred_lower_list example_esco_df) = Some ''SQL''
   \<and> ''r language'' |\<in>| clean_extracted_skills (Str ''R language, SQL'')
   \<and> map_to_esco example_scorer example_esco_df ''r language'' (pref_map example_esco_df)
        (alt_map example_esco_df) (esco_preferred_lower_list example_esco_df) = Some ''R''"
proof -
  have c1: "''sql'' |\<in>| clean_extracted_skills (Str ''R language, SQL'')"
    by code_simp
  have c2: "''r language'' |\<in>| clean_extracted_skills (Str ''R language, SQL'')"
    by code_simp
  have l1: "''SQL'' \<in> preferredLabel ` set example_esco_df"
    by code_simp
  have u1: "\<forall>L2 \<in> preferredLabel ` set example_esco_df. lower L2 = ''sql'' \<longrightarrow> L2 = ''SQL''"
    by code_simp
  have low: "lower ''SQL'' = ''sql''"
    by code_simp
  have r2: "\<lparr>preferredLabel = ''R'', altLabels = Str ''R language''\<rparr> \<in> set example_esco_df"
    by (simp add: example_esco_df_def)
  have k2: "''r language'' \<in> set (alt_keys \<lparr>preferredLabel = ''R'', altLabels = Str ''R language''\<rparr>)"
    by code_simp
  have n2: "''r language'' \<notin> lower ` preferredLabel ` set example_esco_df"
    by code_simp
  have u2: "\<forall>row2 \<in> set example_esco_df. ''r language'' \<in> set (alt_keys row2)
      \<longrightarrow> preferredLabel row2 = preferredLabel \<lparr>preferredLabel = ''R'', altLabels = Str ''R language''\<rparr>"
    by code_simp
  have h1: "''SQL'' \<noteq> [] \<and> lower ''SQL'' = ''sql''"
    using low by simp
  note t1 = map_to_esco_exact_precedence [OF c1, of example_esco_df example_scorer,
      THEN conjunct1, THEN bspec, OF l1, THEN mp, OF h1]
  have m1: "map_to_esco example_scorer example_esco_df ''sql'' (pref_map example_esco_df)
        (alt_map example_esco_df) (esco_preferred_lower_list example_esco_df) = Some ''SQL''"
    using t1 [THEN conjunct1] t1 [THEN conjunct2, THEN conjunct2, THEN mp, OF u1] by simp
  have h2: "''r language'' \<in> set (alt_keys \<lparr>preferredLabel = ''R'', altLabels = Str ''R language''\<rparr>)
      \<and> ''r language'' \<notin> lower ` preferredLabel ` set example_esco_df"
    using k2 n2 by simp
  note t2 = map_to_esco_exact_precedence [OF c2, of example_esco_df example_scorer,
      THEN conjunct2, THEN bspec, OF r2, THEN mp, OF h2]
  have m2: "map_to_esco example_scorer example_esco_df ''r language'' (pref_map example_esco_df)
        (alt_map example_esco_df) (esco_preferred_lower_list example_esco_df) = Some ''R''"
    using t2 [THEN conjunct1] t2 [THEN conjunct2, THEN conjunct2, THEN mp, OF u2] by simp
  from c1 m1 c2 m2 show ?thesis by (intro conjI)
qed

subsection \<open>Fuzzy matches\<close>

text \<open>
  \<^bold>\<open>C3.\<close> Let \<open>p\<close> be a candidate phrase of a record that is neither a canonical label
  up to case nor an alternate label. If the mapper returns a label for \<open>p\<close>, that label is
  the canonical label of a best-scoring choice and the best score is at least 60. If \<open>p\<close>
  scores below 60 against every canonical label, the mapper returns nothing for \<open>p\<close>, and
  the mapped skills of the record are those of its other candidate phrases. A non-empty
  \<open>p\<close> that reaches 60 against some canonical label is not dropped.
\<close>

theorem map_to_esco_fuzzy_threshold:
  fixes scorer :: "string \<Rightarrow> string \<Rightarrow> nat"
  assumes "p |\<in>| clean_extracted_skills extracted"
    and "p \<notin> lower ` preferredLabel ` set esco_df"
    and "\<forall>row \<in> set esco_df. p \<notin> set (alt_keys row)"
  shows
    "(\<forall>l. map_to_esco scorer esco_df p (pref_map esco_df) (alt_map esco_df)
            (esco_preferred_lower_list esco_df) = Some l \<longrightarrow>
        (\<exists>m \<in> set (esco_preferred_lower_list esco_df).
            60 \<le> scorer p m
          \<and> (\<forall>c \<in> set (esco_preferred_lower_list esco_df). scorer p c \<le> scorer p m)
          \<and> l \<in> preferredLabel ` set esco_df \<and> lower l = m))
   \<and> ((\<forall>c \<in> set (esco_preferred_lower_list esco_df). scorer p c < 60) \<longrightarrow>
        map_to_esco scorer esco_df p (pref_map esco_df) (alt_map esco_df)
            (esco_preferred_lower_list esco_df) = None
        \<and> mapper_set scorer esco_df extracted =
            fset_of_list (mapped_skills_list scorer esco_df
              (clean_extracted_skills extracted |-| {|p|})))
   \<and> (p \<noteq> [] \<and> (\<exists>c \<in> set (esco_preferred_lower_list esco_df). 60 \<le> scorer p c) \<longrightarrow>
        map_to_esco scorer esco_df p (pref_map esco_df) (alt_map esco_df)
            (esco_preferred_lower_list esco_df) \<noteq> None)"
proof -
  let ?cs = "esco_preferred_lower_list esco_df"
  let ?m = "\<lambda>q. map_to_esco scorer esco_df q (pref_map esco_df) (alt_map esco_df) ?cs"
  have norm: "strip (lower p) = p"
    using assms(1) by (rule candidate_normal)
  have none: "pref_map esco_df (strip (lower p)) = None" "alt_map esco_df (strip (lower p)) = None"
    using assms(2,3) by (simp_all add: norm pref_map_None_iff alt_map_None_iff)
  note fz = map_to_esco_fuzzy [where pref_map_ref = "pref_map esco_df"
      and alt_map_ref = "alt_map esco_df" and p = p and scorer = scorer and esco_df = esco_df
      and lower_list = ?cs, OF none, unfolded norm]
  have a: "\<exists>m \<in> set ?cs. 60 \<le> scorer p m \<and> (\<forall>c \<in> set ?cs. scorer p c \<le> scorer p m)
          \<and> l \<in> preferredLabel ` set esco_df \<and> lower l = m" if l: "?m p = Some l" for l
  proof -
    from l obtain r row where r: "extractOne scorer p ?cs = Some r" "60 \<le> snd r"
      and row: "find (\<lambda>x. lower (preferredLabel x) = fst r) esco_df = Some row"
        "l = preferredLabel row"
      unfolding fz by (auto split: if_splits option.splits)
    from extractOne_SomeD [OF r(1)] have best: "fst r \<in> set ?cs" "snd r = scorer p (fst r)"
      "\<forall>c \<in> set ?cs. scorer p c \<le> snd r"
      by auto
    from row have "row \<in> set esco_df" "lower (preferredLabel row) = fst r"
      by (auto simp: find_Some_iff)
    with best r(2) row(2) show ?thesis
      by (intro bexI [of _ "fst r"]) auto
  qed
  have b: "?m p = None" if low: "\<forall>c \<in> set ?cs. scorer p c < 60"
  proof (cases "?m p")
    case None
    then show ?thesis .
  next
    case (Some l)
    from a [OF Some] low show ?thesis by fastforce
  qed
  have b': "mapper_set scorer esco_df extracted =
            fset_of_list (mapped_skills_list scorer esco_df
              (clean_extracted_skills extracted |-| {|p|}))" if "?m p = None"
  proof -
    have "fset (mapper_set scorer esco_df extracted) =
        set (mapped_skills_list scorer esco_df (clean_extracted_skills extracted |-| {|p|}))"
      unfolding fset_mapper_set set_mapped_skills_list using that by auto
    then show ?thesis
      by (metis fset_inverse fset_of_list.rep_eq)
  qed
  have c: "?m p \<noteq> None" if ne: "p \<noteq> []" and hi: "\<exists>c \<in> set ?cs. 60 \<le> scorer p c"
  proof -
    from hi have "?cs \<noteq> []" by auto
    then obtain r where r: "extractOne scorer p ?cs = Some r"
      using extractOne_None_iff [of scorer p ?cs] by auto
    from extractOne_SomeD [OF r] hi have "60 \<le> snd r" and in_cs: "fst r \<in> set ?cs"
      by (auto intro: order_trans)
    moreover obtain row where "find (\<lambda>x. lower (preferredLabel x) = fst r) esco_df = Some row"
      using find_lower_label [OF in_cs] by blast
    ultimately show ?thesis
      unfolding fz using ne r by simp
  qed
  show ?thesis
  proof (intro conjI allI impI)
    fix l
    assume "?m p = Some l"
    then show "\<exists>m \<in> set ?cs. 60 \<le> scorer p m \<and> (\<forall>c \<in> set ?cs. scorer p c \<le> scorer p m)
          \<and> l \<in> preferredLabel ` set esco_df \<and> lower l = m"
      by (rule a)
  next
    assume low: "\<forall>c \<in> set ?cs. scorer p c < 60"
    then show "?m p = None"
      by (rule b)
    then show "mapper_set scorer esco_df extracted =
            fset_of_list (mapped_skills_list scorer esco_df
              (clean_extracted_skills extracted |-| {|p|}))"
      by (rule b')
  next
    assume "p \<noteq> [] \<and> (\<exists>c \<in> set ?cs. 60 \<le> scorer p c)"
    then show "?m p \<noteq> None"
      using c by blast
  qed
qed


theorem map_to_esco_fuzzy_threshold_witness:
  "''java'' |\<in>| clean_extracted_skills (Str ''Pyhton, Java'')
   \<and> map_to_esco example_scorer example_esco_df ''java'' (pref_map example_esco_df)
        (alt_map example_esco_df) (esco_preferred_lower_list example_esco_df) = None
   \<and> ''pyhton'' |\<in>| clean_extracted_skills (Str ''Pyhton, Java'')
   \<and> map_to_esco example_scorer example_esco_df ''pyhton'' (pref_map example_esco_df)
        (alt_map example_esco_df) (esco_preferred_lower_list example_esco_df) \<noteq> None"
proof -
  have c1: "''java'' |\<in>| clean_extracted_skills (Str ''Pyhton, Java'')"
    by code_simp
  have p1: "''java'' \<notin> lower ` preferredLabel ` set example_esco_df"
    by code_simp
  have a1: "\<forall>row \<in> set example_esco_df. ''java'' \<notin> set (alt_keys row)"
    by code_simp
  have s1: "\<forall>c \<in> set (esco_preferred_lower_list example_esco_df). example_scorer ''java'' c < 60"
    by code_simp
  have c2: "''pyhton'' |\<in>| clean_extracted_skills (Str ''Pyhton, Java'')"
    by code_simp
  have p2: "''pyhton'' \<notin> lower ` preferredLabel ` set example_esco_df"
    by code_simp
  have a2: "\<forall>row \<in> set example_esco_df. ''pyhton'' \<notin> set (alt_keys row)"
    by code_simp
  have s2: "''pyhton'' \<noteq> [] \<and>
      (\<exists>c \<in> set (esco_preferred_lower_list example_esco_df). 60 \<le> example_scorer ''pyhton'' c)"
    by code_simp
  note t1 = map_to_esco_fuzzy_threshold [OF c1 p1 a1, of example_scorer,
      THEN conjunct2, THEN conjunct1, THEN mp, OF s1, THEN conjunct1]
  note t2 = map_to_esco_fuzzy_threshold [OF c2 p2 a2, of example_scorer,
      THEN conjunct2, THEN conjunct2, THEN mp, OF s2]
  from c1 t1 c2 t2 show ?thesis by (intro conjI)
qed

subsection \<open>Closure in the canonical vocabulary\<close>

text \<open>
  \<^bold>\<open>C5.\<close> Whatever the raw extraction of a record is, every label of its mapped skill
  set is the canonical label of a row of the ontology.
\<close>

theorem mapper_set_canonical:
  fixes scorer :: "string \<Rightarrow> string \<Rightarrow> nat"
  shows "fset (mapper_set scorer esco_df extracted) \<subseteq> preferredLabel ` set esco_df"
  unfolding fset_mapper_set using map_to_esco_label [of scorer esco_df] by blast

theorem mapper_set_canonical_witness:
  "mapper_set example_scorer example_esco_df (Str ''Pyhton, R language and SQL, Java, Py'')
     = {|''Python'', ''R'', ''SQL''|}
   \<and> fset (mapper_set example_scorer example_esco_df (Str ''Pyhton, R language and SQL, Java, Py''))
     \<subseteq> preferredLabel ` set example_esco_df"
proof
  show "mapper_set example_scorer example_esco_df (Str ''Pyhton, R language and SQL, Java, Py'')
     = {|''Python'', ''R'', ''SQL''|}"
    by code_simp
  show "fset (mapper_set example_scorer example_esco_df (Str ''Pyhton, R language and SQL, Java, Py''))
     \<subseteq> preferredLabel ` set example_esco_df"
    by (rule mapper_set_canonical)
qed

subsection \<open>Blank strings and the empty candidate set\<close>

lemma strip_eq_Nil_iff: "strip s = [] \<longleftrightarrow> list_all isspace s"
proof
  assume "strip s = []"
  then have "\<forall>c \<in> set (dropWhile isspace s). isspace c"
    by (simp add: strip_def rstrip_def lstrip_def dropWhile_eq_Nil_conv)
  then have "dropWhile isspace s = []"
    using hd_dropWhile [of isspace s] by (cases "dropWhile isspace s") auto
  then show "list_all isspace s"
    by (simp add: dropWhile_eq_Nil_conv list_all_iff)
next
  assume "list_all isspace s"
  then have "dropWhile isspace s = []"
    by (simp add: dropWhile_eq_Nil_conv list_all_iff)
  then show "strip s = []"
    unfolding strip_def rstrip_def lstrip_def by (simp del: dropWhile_eq_Nil_conv)
qed

lemma isspace_lower_char: "isspace c \<Longrightarrow> lower_char c = c"
  by (rule kept_char_lower) (simp add: kept_char_def)


subsection \<open>Remote failures\<close>

lemma progress_apply_outcome:
  assumes str: "\<And>t k. f (Str t) k = (call k t, Suc k)"
    and non: "\<And>x k. (\<forall>t. x \<noteq> Str t) \<Longrightarrow> f x k = (Inl TypeError, k)"
  shows "case progress_apply f xs k of
      (Inr ys, n) \<Rightarrow> batch_completes (\<lambda>i. call (k + i)) xs ys (n - k) \<and> k \<le> n
    | (Inl e, n) \<Rightarrow> batch_aborts (\<lambda>i. call (k + i)) xs e (n - k) \<and> k \<le> n"
proof (induction xs arbitrary: k)
  case Nil
  show ?case by (simp add: batch_completes_def)
next
  case (Cons x xs)
  show ?case
  proof (cases "\<exists>t. x = Str t")
    case False
    then have "f x k = (Inl TypeError, k)"
      using non by blast
    moreover have "batch_aborts (\<lambda>i. call (k + i)) (x # xs) TypeError 0"
      unfolding batch_aborts_def using False by (intro exI [of _ 0]) simp
    ultimately show ?thesis by simp
  next
    case True
    then obtain t where x: "x = Str t" by blast
    then have fx: "f x k = (call k t, Suc k)"
      using str by simp
    show ?thesis
    proof (cases "call k t")
      case (Inl e)
      have "batch_aborts (\<lambda>i. call (k + i)) (x # xs) e (Suc 0)"
        unfolding batch_aborts_def using x Inl by (intro exI [of _ 0]) simp
      with fx Inl show ?thesis by simp
    next
      case (Inr y)
      note IH = Cons.IH [of "Suc k"]
      show ?thesis
      proof (cases "progress_apply f xs (Suc k)")
        case (Pair res n)
        show ?thesis
        proof (cases res)
          case (Inl e)
          with IH Pair have ab: "batch_aborts (\<lambda>i. call (Suc k + i)) xs e (n - Suc k)"
            and le: "Suc k \<le> n"
            by simp_all
          then obtain i where i: "i < length xs"
            "\<forall>j < i. \<exists>t y. xs ! j = Str t \<and> call (Suc k + j) t = Inr y"
            "(\<exists>t. xs ! i = Str t \<and> call (Suc k + i) t = Inl e \<and> n - Suc k = Suc i) \<or>
             ((\<forall>t. xs ! i \<noteq> Str t) \<and> e = TypeError \<and> n - Suc k = i)"
            unfolding batch_aborts_def by blast
          have "\<forall>j < Suc i. \<exists>t y. (x # xs) ! j = Str t \<and> call (k + j) t = Inr y"
            using i(2) x Inr by (auto simp: less_Suc_eq_0_disj)
          moreover have "(\<exists>t. (x # xs) ! Suc i = Str t \<and> call (k + Suc i) t = Inl e
                \<and> n - k = Suc (Suc i)) \<or>
             ((\<forall>t. (x # xs) ! Suc i \<noteq> Str t) \<and> e = TypeError \<and> n - k = Suc i)"
            using i(3) le by auto
          ultimately have "batch_aborts (\<lambda>i. call (k + i)) (x # xs) e (n - k)"
            unfolding batch_aborts_def using i(1) by (intro exI [of _ "Suc i"]) simp
          with fx Inr Pair Inl le show ?thesis by simp
        next
          case inr: (Inr ys)
          with IH Pair have co: "batch_completes (\<lambda>i. call (Suc k + i)) xs ys (n - Suc k)"
            and le: "Suc k \<le> n"
            by simp_all
          then have "batch_completes (\<lambda>i. call (k + i)) (x # xs) (y # ys) (n - k)"
            unfolding batch_completes_def using x Inr le
            by (auto simp: less_Suc_eq_0_disj)
          with fx Inr Pair inr le show ?thesis by simp
        qed
      qed
    qed
  qed
qed

text \<open>
  \<^bold>\<open>C8.\<close> As amended. For a record whose text is a string either extractor makes one
  call and returns what that call returns: the text of the service as it is, or the
  failure of the call, not caught and not retried. For a record whose text is not a string
  it makes no call and ends with \<^verbatim>\<open>TypeError\<close>. A batch over a column either completes,
  with one call for each record and for each record the text its call returned, or aborts
  at the first record that fails, with the failure of that record and without any output.
\<close>

theorem extraction_failure_unhandled:
  "extract_skills_llama3_sambanova client x k
      = (case x of
           Str resume_text \<Rightarrow> (client k (messages resume_text), Suc k)
         | Num n \<Rightarrow> (Inl TypeError, k)
         | NaN \<Rightarrow> (Inl TypeError, k))
   \<and> extract_skills_llama3_sambanova_kg client esco_skills few_shot x k
      = (case x of
           Str resume_text \<Rightarrow> (client k (messages_kg resume_text esco_skills few_shot), Suc k)
         | Num n \<Rightarrow> (Inl TypeError, k)
         | NaN \<Rightarrow> (Inl TypeError, k))
   \<and> (case extracted_skills_raw client column of
        (Inr ys, n) \<Rightarrow> batch_completes (\<lambda>i t. client i (messages t)) column ys n
      | (Inl e, n) \<Rightarrow> batch_aborts (\<lambda>i t. client i (messages t)) column e n)
   \<and> (case extracted_skills_raw_kg client esco_skills few_shot column of
        (Inr ys, n) \<Rightarrow>
          batch_completes (\<lambda>i t. client i (messages_kg t esco_skills few_shot)) column ys n
      | (Inl e, n) \<Rightarrow>
          batch_aborts (\<lambda>i t. client i (messages_kg t esco_skills few_shot)) column e n)"
proof (intro conjI)
  show "extract_skills_llama3_sambanova client x k
      = (case x of
           Str resume_text \<Rightarrow> (client k (messages resume_text), Suc k)
         | Num n \<Rightarrow> (Inl TypeError, k)
         | NaN \<Rightarrow> (Inl TypeError, k))"
    by (cases x) simp_all
  show "extract_skills_llama3_sambanova_kg client esco_skills few_shot x k
      = (case x of
           Str resume_text \<Rightarrow> (client k (messages_kg resume_text esco_skills few_shot), Suc k)
         | Num n \<Rightarrow> (Inl TypeError, k)
         | NaN \<Rightarrow> (Inl TypeError, k))"
    by (cases x) simp_all
  have "\<And>x k. (\<forall>t. x \<noteq> Str t) \<Longrightarrow>
      extract_skills_llama3_sambanova client x k = (Inl TypeError, k)" for client
    by (case_tac x) simp_all
  from progress_apply_outcome [where f = "extract_skills_llama3_sambanova client"
      and call = "\<lambda>i t. client i (messages t)" and xs = column and k = 0, OF _ this]
  show "case extracted_skills_raw client column of
        (Inr ys, n) \<Rightarrow> batch_completes (\<lambda>i t. client i (messages t)) column ys n
      | (Inl e, n) \<Rightarrow> batch_aborts (\<lambda>i t. client i (messages t)) column e n"
    unfolding extracted_skills_raw_def by (auto split: prod.splits sum.splits)
  have "\<And>x k. (\<forall>t. x \<noteq> Str t) \<Longrightarrow>
      extract_skills_llama3_sambanova_kg client esco_skills few_shot x k = (Inl TypeError, k)"
    by (case_tac x) simp_all
  from progress_apply_outcome [where f = "extract_skills_llama3_sambanova_kg client esco_skills few_shot"
      and call = "\<lambda>i t. client i (messages_kg t esco_skills few_shot)" and xs = column
      and k = 0, OF _ this]
  show "case extracted_skills_raw_kg client esco_skills few_shot column of
        (Inr ys, n) \<Rightarrow>
          batch_completes (\<lambda>i t. client i (messages_kg t esco_skills few_shot)) column ys n
      | (Inl e, n) \<Rightarrow>
          batch_aborts (\<lambda>i t. client i (messages_kg t esco_skills few_shot)) column e n"
    unfolding extracted_skills_raw_kg_def by (auto split: prod.splits sum.splits)
qed

theorem extraction_failure_unhandled_witness:
  "extract_skills_llama3_sambanova flaky_client (Str ''data scientist'') 0
      = (flaky_client 0 (messages ''data scientist''), 1)
   \<and> extract_skills_llama3_sambanova flaky_client NaN 0 = (Inl TypeError, 0)
   \<and> batch_aborts (\<lambda>i t. flaky_client i (messages t))
      [Str ''data scientist'', Str ''data analyst''] Timeout 1
   \<and> batch_completes (\<lambda>i t. steady_client i (messages t))
      [Str ''data scientist'', Str ''data analyst''] [''Python, SQL'', ''Python, SQL''] 2"
proof (intro conjI)
  show "extract_skills_llama3_sambanova flaky_client (Str ''data scientist'') 0
      = (flaky_client 0 (messages ''data scientist''), 1)"
    using extraction_failure_unhandled [where client = flaky_client
        and x = "Str ''data scientist''" and k = 0]
    by simp
  show "extract_skills_llama3_sambanova flaky_client NaN 0 = (Inl TypeError, 0)"
    using extraction_failure_unhandled [where client = flaky_client and x = NaN and k = 0]
    by simp
  have "extracted_skills_raw flaky_client [Str ''data scientist'', Str ''data analyst'']
      = (Inl Timeout, 1)"
    by code_simp
  with extraction_failure_unhandled [where client = flaky_client
      and column = "[Str ''data scientist'', Str ''data analyst'']"]
  show "batch_aborts (\<lambda>i t. flaky_client i (messages t))
      [Str ''data scientist'', Str ''data analyst''] Timeout 1"
    by simp
  have "extracted_skills_raw steady_client [Str ''data scientist'', Str ''data analyst'']
      = (Inr [''Python, SQL'', ''Python, SQL''], 2)"
    by code_simp
  with extraction_failure_unhandled [where client = steady_client
      and column = "[Str ''data scientist'', Str ''data analyst'']"]
  show "batch_completes (\<lambda>i t. steady_client i (messages t))
      [Str ''data scientist'', Str ''data analyst''] [''Python, SQL'', ''Python, SQL''] 2"
    by simp
qed

text \<open>
  The claim as it stands fails: with a service whose first call times out and whose second
  call would answer, the extractor returns the timeout after that one call, and the batch
  over two records ends with the timeout after one call, without a result for either
  record.
\<close>

theorem extraction_retry_counterexample:
  "flaky_client 0 (messages ''data scientist'') = Inl Timeout
   \<and> flaky_client 1 (messages ''data scientist'') = Inr ''Python, SQL''
   \<and> extract_skills_llama3_sambanova flaky_client (Str ''data scientist'') 0 = (Inl Timeout, 1)
   \<and> extracted_skills_raw flaky_client [Str ''data scientist'', Str ''data analyst'']
      = (Inl Timeout, 1)
   \<and> extracted_skills_raw_kg flaky_client ''sql'' ''Skills: SQL''
        [Str ''data scientist'', Str ''data analyst''] = (Inl Timeout, 1)"
  by code_simp

subsection \<open>Candidate fragments\<close>

text \<open>
  \<^bold>\<open>C6.\<close> The candidate skill set of the extraction \<^verbatim>\<open>Python, (R), $5, ??\<close>. The
  pieces \<^verbatim>\<open>(r)\<close>, \<^verbatim>\<open>$5\<close> and \<^verbatim>\<open>??\<close> pass the tests on length and digits as they
  are, and are then put into the set without their punctuation: as a phrase of one
  character, a phrase of digits only and the empty phrase.
\<close>

theorem clean_extracted_skills_short_fragments:
  "clean_extracted_skills (Str ''Python, (R), $5, ??'') = {|''python'', ''r'', ''5'', []|}"
  by code_simp

subsection \<open>Running the mapper on its own output\<close>

lemma lower_append: "lower (a @ b) = lower a @ lower b"
  by (simp add: lower_def)

lemma lower_join: "lower (join sep xs) = join (lower sep) (map lower xs)"
  by (induction sep xs rule: join.induct) (simp_all add: lower_append, simp add: lower_def)

lemma replace_absent:
  assumes "\<not> sublist old t"
  shows "replace old new t = t"
  using assms
proof (induction t)
  case Nil
  show ?case by simp
next
  case (Cons c cs)
  have "\<not> sublist old cs"
    using Cons.prems by (simp add: sublist_Cons_right)
  then have IH: "replace old new cs = cs"
    by (rule Cons.IH)
  have "take (length old) (c # cs) \<noteq> old"
  proof
    assume "take (length old) (c # cs) = old"
    then have "prefix old (c # cs)"
      by (metis take_is_prefix)
    then show False
      using Cons.prems by (simp add: sublist_Cons_right)
  qed
  with IH show ?case by simp
qed

lemma replace_char_absent: "c \<notin> set t \<Longrightarrow> replace [c] new t = t"
proof (rule replace_absent)
  assume "c \<notin> set t"
  show "\<not> sublist [c] t"
  proof
    assume "sublist [c] t"
    then have "set [c] \<subseteq> set t"
      by (auto simp: sublist_def)
    with \<open>c \<notin> set t\<close> show False by simp
  qed
qed

lemma plain_ends: "plain l \<Longrightarrow> \<not> isspace (hd l) \<and> \<not> isspace (last l)"
  unfolding plain_def using strip_ends [of l] by simp

lemma comma_not_space: "\<not> isspace CHR '',''"
  by (simp add: isspace_def)

lemma sep_at_inside:
  assumes "b \<noteq> []" "\<not> isspace (last b)" "CHR '','' \<notin> set b"
  shows "\<not> sep_at (b @ r)"
proof -
  have "\<exists>x \<in> set b. \<not> isspace x"
    using assms(1,2) last_in_set by blast
  then have d: "dropWhile isspace (b @ r) = dropWhile isspace b @ r"
    by (auto intro: dropWhile_append1)
  have ne: "dropWhile isspace b \<noteq> []"
    using \<open>\<exists>x \<in> set b. \<not> isspace x\<close> by (simp add: dropWhile_eq_Nil_conv)
  then have "hd (dropWhile isspace b) \<in> set b"
    by (meson hd_in_set set_dropWhileD)
  then have "hd (dropWhile isspace b) \<noteq> CHR '',''"
    using assms(3) by auto
  then show ?thesis
    unfolding sep_at_def d using ne by (cases "dropWhile isspace b") auto
qed

lemma split_from_last:
  assumes "b \<noteq> [] \<longrightarrow> \<not> isspace (last b)" "CHR '','' \<notin> set b"
  shows "split_from cur b = [rev cur @ b]"
  using assms
proof (induction b arbitrary: cur)
  case Nil
  show ?case by simp
next
  case (Cons c b)
  have "\<not> sep_at (c # b)"
    using sep_at_inside [of "c # b" "[]"] Cons.prems by simp
  moreover have "split_from (c # cur) b = [rev (c # cur) @ b]"
    using Cons.prems by (intro Cons.IH) (auto split: if_splits)
  ultimately show ?case by simp
qed

lemma split_from_piece:
  assumes "b \<noteq> [] \<longrightarrow> \<not> isspace (last b)" "CHR '','' \<notin> set b"
    and "t \<noteq> [] \<longrightarrow> \<not> isspace (hd t)"
  shows "split_from cur (b @ '', '' @ t) = (rev cur @ b) # split_from [] t"
  using assms(1,2)
proof (induction b arbitrary: cur)
  case Nil
  have "sep_at ('', '' @ t)"
    by (simp add: sep_at_def comma_not_space)
  moreover have "after_sep ('', '' @ t) = t"
    using assms(3) by (cases t) (simp_all add: after_sep_def comma_not_space isspace_blank)
  ultimately show ?case by simp
next
  case (Cons c b)
  have "\<not> sep_at ((c # b) @ '', '' @ t)"
    using Cons.prems by (intro sep_at_inside) auto
  moreover have "split_from (c # cur) (b @ '', '' @ t) = (rev (c # cur) @ b) # split_from [] t"
    using Cons.prems by (intro Cons.IH) (auto split: if_splits)
  ultimately show ?case by simp
qed

lemma hd_join: "x \<noteq> [] \<Longrightarrow> hd (join sep (x # xs)) = hd x"
  by (cases xs) simp_all

lemma join_nonempty: "x \<noteq> [] \<Longrightarrow> join sep (x # xs) \<noteq> []"
  by (cases xs) simp_all

lemma split_join:
  assumes "list_all plain ls" "ls \<noteq> []"
  shows "re_split_commas (join '', '' ls) = ls"
  unfolding re_split_commas_def using assms
proof (induction "'', ''" ls rule: join.induct)
  case 1
  then show ?case by simp
next
  case (2 x)
  then have "plain x" by simp
  then show ?case
    using split_from_last [of x "[]"] plain_ends [of x] by (simp add: plain_def)
next
  case (3 x y ys)
  then have x: "plain x" and y: "plain y" by simp_all
  have t: "join '', '' (y # ys) \<noteq> [] \<longrightarrow> \<not> isspace (hd (join '', '' (y # ys)))"
    using y plain_ends [of y] by (simp add: hd_join plain_def)
  have "split_from [] (x @ '', '' @ join '', '' (y # ys)) = (rev [] @ x) # split_from [] (join '', '' (y # ys))"
    using x plain_ends [of x] t by (intro split_from_piece) (auto simp: plain_def)
  moreover have "split_from [] (join '', '' (y # ys)) = y # ys"
    using 3 by simp
  ultimately show ?case by simp
qed


lemma mapper_labels:
  fixes scorer :: "string \<Rightarrow> string \<Rightarrow> nat"
  shows "fset (mapper_set scorer esco_df extracted) \<subseteq> preferredLabel ` set esco_df"
  unfolding fset_mapper_set using map_to_esco_label [of scorer esco_df] by blast

lemma set_join: "set (join sep xs) \<subseteq> set sep \<union> \<Union> (set ` set xs)"
  by (induction sep xs rule: join.induct) auto

lemma kept_char_not_comma: "kept_char c \<Longrightarrow> c \<noteq> CHR '','' \<and> c \<noteq> CHR '';''"
  unfolding kept_char_def islower_char_def isdigit_char_def isspace_def
  by (elim disjE) auto

lemma survives_cleaning_plain:
  assumes "survives_cleaning l"
  shows "plain l"
proof -
  from assms have k: "\<forall>c \<in> set l. kept_char c" and s: "strip l = l" and n: "length l > 1"
    unfolding survives_cleaning_def list_all_iff by blast+
  have "CHR '','' \<notin> set l"
    using k kept_char_not_comma by blast
  moreover have "l \<noteq> []"
    using n by (cases l) simp_all
  ultimately show ?thesis
    unfolding plain_def using s by blast
qed

lemma survives_cleaning_kept:
  assumes "survives_cleaning l"
  shows "keep_piece l \<and> clean_piece l = l"
proof -
  from assms have k: "\<forall>c \<in> set l. kept_char c" and s: "strip l = l" and n: "length l > 1"
    and d: "\<not> isdigit l"
    unfolding survives_cleaning_def list_all_iff by blast+
  have ne: "l \<noteq> []"
    using n by (cases l) simp_all
  have "keep_piece l"
    unfolding keep_piece_def s using ne n d by blast
  moreover have "filter kept_char l = l"
    using k by (rule filter_True)
  then have "clean_piece l = l"
    unfolding clean_piece_def using s by (simp only:)
  ultimately show ?thesis by blast
qed

lemma clean_joined:
  assumes surv: "\<forall>l \<in> set ls. survives_cleaning (lower l)"
    and no_and: "\<not> sublist '' and '' (lower (join '', '' ls))"
  shows "clean_extracted_skills (Str (join '', '' ls)) = fset_of_list (map lower ls)"
proof (cases ls)
  case Nil
  then show ?thesis by simp
next
  case (Cons l0 ls0)
  let ?ls = "map lower ls"
  let ?T = "join '', '' ls"
  have low: "lower ?T = join '', '' ?ls"
    by (simp add: lower_join) (simp add: lower_def lower_char_def)
  have pl: "list_all plain ?ls"
    using surv by (auto simp: list_all_iff dest: survives_cleaning_plain)
  have ne: "?ls \<noteq> []"
    using Cons by simp
  have "lower l0 \<noteq> []" "\<not> isspace (hd (lower l0))"
    using pl Cons plain_ends [of "lower l0"] by (simp_all add: plain_def)
  then have "lower ?T \<noteq> []" "\<not> isspace (hd (lower ?T))"
    unfolding low using Cons by (simp_all add: hd_join join_nonempty)
  then have "\<not> list_all isspace (lower ?T)"
    by (cases "lower ?T") auto
  moreover have "list_all isspace (lower ?T)" if "list_all isspace ?T"
    using that by (auto simp: list_all_iff lower_def isspace_lower_char)
  ultimately have "\<not> list_all isspace ?T"
    by blast
  then have s: "strip ?T \<noteq> []"
    by (simp add: strip_eq_Nil_iff)
  have "\<forall>c \<in> set (lower ?T). c \<noteq> CHR '';''"
  proof
    fix c
    assume "c \<in> set (lower ?T)"
    then have "c \<in> set '', '' \<or> (\<exists>l \<in> set ?ls. c \<in> set l)"
      unfolding low using set_join [of "'', ''" ?ls] by auto
    moreover have "kept_char c" if "l \<in> set ?ls" "c \<in> set l" for l
      using that surv by (auto simp: survives_cleaning_def list_all_iff)
    ultimately show "c \<noteq> CHR '';''"
      using kept_char_not_comma by auto
  qed
  then have r1: "replace '';'' '','' (lower ?T) = lower ?T"
    by (intro replace_char_absent) auto
  have r2: "replace '' and '' '', '' (lower ?T) = lower ?T"
    using no_and by (rule replace_absent)
  have sp: "re_split_commas (lower ?T) = ?ls"
    unfolding low using pl ne by (rule split_join)
  have f: "filter keep_piece ?ls = ?ls"
    using surv by (auto simp: filter_id_conv dest: survives_cleaning_kept)
  have m: "map clean_piece ?ls = ?ls"
    using surv by (auto simp: map_idI dest: survives_cleaning_kept)
  have "clean_extracted_skills (Str ?T) =
      fset_of_list (map clean_piece (filter keep_piece (re_split_commas
        (replace '' and '' '', '' (replace '';'' '','' (lower ?T))))))"
    using s by (simp only: clean_extracted_skills.simps Let_def if_False)
  also have "\<dots> = fset_of_list ?ls"
    by (simp only: r1 r2 sp f m)
  finally show ?thesis .
qed

text \<open>
  \<^bold>\<open>C4.\<close> As amended. Suppose no two canonical labels are equal up to case, every
  label of the mapped skill set of a record, in lower case, is a phrase the cleaning step
  leaves alone, and the output string of the record, in lower case, does not contain the
  word \<^verbatim>\<open>and\<close> between two blanks. Then the mapper, run on that output string, returns
  the same set of canonical labels.
\<close>

theorem mapper_rerun_stable:
  fixes scorer :: "string \<Rightarrow> string \<Rightarrow> nat"
  assumes inj: "inj_on lower (preferredLabel ` set esco_df)"
    and surv: "\<forall>L. L |\<in>| mapper_set scorer esco_df extracted \<longrightarrow> survives_cleaning (lower L)"
    and no_and: "\<not> sublist '' and '' (lower (mapper_str scorer esco_df extracted))"
  shows "mapper_set scorer esco_df (Str (mapper_str scorer esco_df extracted))
       = mapper_set scorer esco_df extracted"
proof -
  let ?ls = "mapped_skills_list scorer esco_df (clean_extracted_skills extracted)"
  let ?m = "\<lambda>q. map_to_esco scorer esco_df q (pref_map esco_df) (alt_map esco_df)
      (esco_preferred_lower_list esco_df)"
  have str: "mapper_str scorer esco_df extracted = join '', '' ?ls"
    by (simp add: mapper_str_def mapped_skills_str_def)
  have set_ls: "set ?ls = fset (mapper_set scorer esco_df extracted)"
    by (simp add: mapper_set_def fset_of_list.rep_eq)
  have surv': "\<forall>l \<in> set ?ls. survives_cleaning (lower l)"
    using surv set_ls by auto
  have cands: "clean_extracted_skills (Str (join '', '' ?ls)) = fset_of_list (map lower ?ls)"
    using surv' no_and unfolding str by (rule clean_joined)
  have round: "?m (lower L) = Some L \<and> L \<noteq> []" if L: "L \<in> set ?ls" for L
  proof -
    have lab: "L \<in> preferredLabel ` set esco_df"
      using L mapper_labels set_ls by blast
    have sc: "survives_cleaning (lower L)"
      using surv' L by blast
    then have ne: "lower L \<noteq> []"
      by (auto simp: survives_cleaning_def)
    have "lower L |\<in>| clean_extracted_skills (Str (join '', '' ?ls))"
      unfolding cands using L by (simp add: fset_of_list_elem)
    then have norm: "strip (lower (lower L)) = lower L"
      by (rule candidate_normal)
    have "pref_map esco_df (lower L) \<noteq> None"
      using lab by (auto simp: pref_map_None_iff)
    then obtain L' where L': "pref_map esco_df (lower L) = Some L'"
      by auto
    from pref_map_SomeD [OF L'] lab inj have "L' = L"
      by (auto dest: inj_onD)
    with L' have "?m (lower L) = Some L"
      using map_to_esco_pref [of "lower L" "pref_map esco_df" L] norm ne by simp
    moreover have "L \<noteq> []"
      using ne by (auto simp: lower_def)
    ultimately show ?thesis by simp
  qed
  have "fset (mapper_set scorer esco_df (Str (join '', '' ?ls))) = set ?ls"
    unfolding fset_mapper_set cands using round by (auto simp: fset_of_list_elem)
  then show ?thesis
    unfolding str set_ls by (simp add: fset_inject)
qed


theorem mapper_rerun_stable_witness:
  "mapper_set example_scorer example_esco_df (Str ''Pyhton, SQL'') = {|''Python'', ''SQL''|}
   \<and> mapper_str example_scorer example_esco_df (Str ''Pyhton, SQL'') = ''Python, SQL''
   \<and> mapper_set example_scorer example_esco_df
        (Str (mapper_str example_scorer example_esco_df (Str ''Pyhton, SQL'')))
      = mapper_set example_scorer example_esco_df (Str ''Pyhton, SQL'')"
proof -
  have v: "mapper_set example_scorer example_esco_df (Str ''Pyhton, SQL'') = {|''Python'', ''SQL''|}"
    by code_simp
  have w: "mapper_str example_scorer example_esco_df (Str ''Pyhton, SQL'') = ''Python, SQL''"
    by code_simp
  have labels: "preferredLabel ` set example_esco_df = {''Python'', ''R'', ''SQL''}"
    by (simp add: example_esco_df_def)
  have "lower ''Python'' = ''python''" "lower ''R'' = ''r''" "lower ''SQL'' = ''sql''"
    by code_simp+
  then have inj: "inj_on lower (preferredLabel ` set example_esco_df)"
    unfolding labels by simp
  have "survives_cleaning (lower ''Python'')" "survives_cleaning (lower ''SQL'')"
    by code_simp+
  then have surv: "\<forall>L. L |\<in>| mapper_set example_scorer example_esco_df (Str ''Pyhton, SQL'')
      \<longrightarrow> survives_cleaning (lower L)"
    unfolding v by auto
  have no_and: "\<not> sublist '' and ''
      (lower (mapper_str example_scorer example_esco_df (Str ''Pyhton, SQL'')))"
    unfolding w by code_simp
  from v w mapper_rerun_stable [OF inj surv no_and] show ?thesis
    by (intro conjI)
qed

text \<open>
  The claim as it stands fails: the extraction \<^verbatim>\<open>R language, SQL\<close> is mapped to the
  labels \<^verbatim>\<open>R\<close> and \<^verbatim>\<open>SQL\<close>, written as \<^verbatim>\<open>R, SQL\<close>; the mapper run on that string
  drops the piece \<^verbatim>\<open>r\<close>, which has one character only, and returns \<^verbatim>\<open>SQL\<close> alone.
  No fuzzy score is needed on the way.
\<close>

theorem mapper_rerun_counterexample:
  "mapper_set example_scorer example_esco_df (Str ''R language, SQL'') = {|''R'', ''SQL''|}
   \<and> mapper_str example_scorer example_esco_df (Str ''R language, SQL'') = ''R, SQL''
   \<and> mapper_set example_scorer example_esco_df
        (Str (mapper_str example_scorer example_esco_df (Str ''R language, SQL''))) = {|''SQL''|}
   \<and> mapper_set example_scorer example_esco_df
        (Str (mapper_str example_scorer example_esco_df (Str ''R language, SQL'')))
      \<noteq> mapper_set example_scorer example_esco_df (Str ''R language, SQL'')"
  by code_simp

subsection \<open>The normaliser on a column\<close>

lemma on_text_on_text: "on_text f (on_text g c) = on_text (\<lambda>s. f (g s)) c"
  by (cases c) simp_all

lemma is_text_on_text: "is_text (on_text f c) = is_text c"
  by (cases c) simp_all

lemma list_ex_on_text: "list_ex is_text (map (on_text f) column) = list_ex is_text column"
  by (simp add: list_ex_iff is_text_on_text)

lemma str_method_again:
  assumes "\<not> (column \<noteq> [] \<and> \<not> list_ex is_text column)"
  shows "str_method f (map (on_text g) column) = Inr (map (on_text (\<lambda>s. f (g s))) column)"
  unfolding str_method_def using assms by (simp add: list_ex_on_text on_text_on_text)

lemma Text_Clean_cells:
  "Text_Clean db column =
     (if column \<noteq> [] \<and> \<not> list_ex is_text column then Inl AttributeError
      else Inr (map (on_text (text_clean db)) column))"
proof (cases "column \<noteq> [] \<and> \<not> list_ex is_text column")
  case True
  then have "str_method (py_lower db) column = Inl AttributeError"
    by (simp add: str_method_def)
  with True show ?thesis
    by (simp add: Text_Clean_def)
next
  case False
  have 1: "str_method (py_lower db) column = Inr (map (on_text (py_lower db)) column)"
    using False by (simp add: str_method_def)
  have 2: "str_method (sub_runs (is_decimal db) [32]) (map (on_text (py_lower db)) column)
      = Inr (map (on_text (\<lambda>s. sub_runs (is_decimal db) [32] (py_lower db s))) column)"
    by (rule str_method_again [OF False])
  have 3: "str_method (sub_each (\<lambda>c. \<not> is_word db c \<and> \<not> is_space db c) [32])
        (map (on_text (\<lambda>s. sub_runs (is_decimal db) [32] (py_lower db s))) column)
      = Inr (map (on_text (\<lambda>s. sub_each (\<lambda>c. \<not> is_word db c \<and> \<not> is_space db c) [32]
          (sub_runs (is_decimal db) [32] (py_lower db s)))) column)"
    by (rule str_method_again [OF False])
  have 4: "str_method (sub_runs (is_space db) [32])
        (map (on_text (\<lambda>s. sub_each (\<lambda>c. \<not> is_word db c \<and> \<not> is_space db c) [32]
          (sub_runs (is_decimal db) [32] (py_lower db s)))) column)
      = Inr (map (on_text (\<lambda>s. sub_runs (is_space db) [32]
          (sub_each (\<lambda>c. \<not> is_word db c \<and> \<not> is_space db c) [32]
          (sub_runs (is_decimal db) [32] (py_lower db s))))) column)"
    by (rule str_method_again [OF False])
  have 5: "str_method (ustrip (is_space db))
        (map (on_text (\<lambda>s. sub_runs (is_space db) [32]
          (sub_each (\<lambda>c. \<not> is_word db c \<and> \<not> is_space db c) [32]
          (sub_runs (is_decimal db) [32] (py_lower db s))))) column)
      = Inr (map (on_text (\<lambda>s. text_clean db s)) column)"
    unfolding text_clean_def by (rule str_method_again [OF False])
  have "Text_Clean db column = Inr (map (on_text (\<lambda>s. text_clean db s)) column)"
    unfolding Text_Clean_def by (simp only: 1 2 3 4 5 and_then.simps)
  then show ?thesis
    using False by simp
qed

subsection \<open>Stripping with a class of whitespace\<close>

lemma ustrip_infix: "\<exists>a b. s = a @ ustrip sp s @ b \<and> list_all sp a \<and> list_all sp b"
proof -
  let ?l = "dropWhile sp s"
  have "s = takeWhile sp s @ ?l"
    by simp
  moreover have "rev ?l = takeWhile sp (rev ?l) @ dropWhile sp (rev ?l)"
    by simp
  then have "?l = ustrip sp s @ rev (takeWhile sp (rev ?l))"
    unfolding ustrip_def by (metis rev_append rev_rev_ident)
  ultimately have "s = takeWhile sp s @ ustrip sp s @ rev (takeWhile sp (rev ?l))"
    by simp
  moreover have "list_all sp (takeWhile sp s)" "list_all sp (rev (takeWhile sp (rev ?l)))"
    by (simp_all add: list_all_iff) (meson set_takeWhileD)+
  ultimately show ?thesis by blast
qed

lemma set_ustrip: "set (ustrip sp s) \<subseteq> set s"
proof -
  obtain a b where "s = a @ ustrip sp s @ b"
    using ustrip_infix by blast
  then have "set s = set a \<union> set (ustrip sp s) \<union> set b"
    by (metis set_append Un_assoc)
  then show ?thesis by blast
qed

lemma successively_ustrip: "successively P s \<Longrightarrow> successively P (ustrip sp s)"
proof -
  assume s: "successively P s"
  obtain a b where "s = a @ ustrip sp s @ b"
    using ustrip_infix by blast
  then have "successively P (a @ ustrip sp s @ b)"
    using s by simp
  then show ?thesis
    by (auto simp: successively_append_iff)
qed

lemma rstrip_keep: "s \<noteq> [] \<Longrightarrow> \<not> sp (last s) \<Longrightarrow> rev (dropWhile sp (rev s)) = s"
  by (cases "rev s") (auto simp: last_rev [symmetric] hd_rev)

lemma ustrip_id: "s \<noteq> [] \<Longrightarrow> \<not> sp (hd s) \<Longrightarrow> \<not> sp (last s) \<Longrightarrow> ustrip sp s = s"
proof -
  assume a: "s \<noteq> []" "\<not> sp (hd s)" "\<not> sp (last s)"
  then have "dropWhile sp s = s"
    by (cases s) auto
  then show ?thesis
    unfolding ustrip_def using a by (simp add: rstrip_keep)
qed

lemma ustrip_ends:
  assumes "ustrip sp s \<noteq> []"
  shows "\<not> sp (hd (ustrip sp s)) \<and> \<not> sp (last (ustrip sp s))"
proof -
  let ?l = "dropWhile sp s"
  let ?r = "dropWhile sp (rev ?l)"
  have r: "?r \<noteq> []"
    using assms by (simp add: ustrip_def)
  then have l: "?l \<noteq> []"
    by (metis dropWhile.simps(1) rev.simps(1))
  have "\<not> sp (hd ?r)"
    using r by (rule hd_dropWhile)
  then have last: "\<not> sp (last (ustrip sp s))"
    unfolding ustrip_def using r by (simp add: last_rev)
  have "rev ?l = takeWhile sp (rev ?l) @ ?r"
    by simp
  then have "?l = ustrip sp s @ rev (takeWhile sp (rev ?l))"
    unfolding ustrip_def by (metis rev_append rev_rev_ident)
  then have "hd ?l = hd (ustrip sp s)"
    using assms by (metis hd_append2)
  moreover have "\<not> sp (hd ?l)"
    using l by (rule hd_dropWhile)
  ultimately show ?thesis
    using last by simp
qed

lemma ustrip_ustrip: "ustrip sp (ustrip sp s) = ustrip sp s"
proof (cases "ustrip sp s = []")
  case True
  show ?thesis
    unfolding True by (simp add: ustrip_def)
next
  case False
  then show ?thesis
    using ustrip_ends [OF False] by (simp add: ustrip_id)
qed

lemma sub_runs_successively:
  assumes "sp b"
  shows "successively (\<lambda>x y. \<not> (sp x \<and> sp y)) (sub_runs sp [b] s)"
proof (induction sp "[b]" s rule: sub_runs.induct)
  case (1 sp)
  then show ?case by simp
next
  case (2 sp c cs)
  show ?case
  proof (cases "sp c")
    case True
    let ?r = "dropWhile sp cs"
    have IH: "successively (\<lambda>x y. \<not> (sp x \<and> sp y)) (sub_runs sp [b] ?r)"
      using 2(1) True by simp
    have "sub_runs sp [b] ?r = [] \<or> \<not> sp (hd (sub_runs sp [b] ?r))"
    proof (cases "?r = []")
      case True
      then show ?thesis by (metis sub_runs.simps(1))
    next
      case False
      then have "\<not> sp (hd ?r)" by (rule hd_dropWhile)
      then show ?thesis using sub_runs_hd [OF False, of sp "[b]"] by simp
    qed
    with IH True show ?thesis by (auto simp: successively_Cons)
  next
    case False
    with 2(2) show ?thesis by (auto simp: successively_Cons)
  qed
qed

subsection \<open>The three substitutions as one\<close>

lemma sub_each_single: "sub_each C [r] s = map (\<lambda>c. if C c then r else c) s"
  by (induction s) (simp_all add: sub_each_def)

lemma three_passes_Nil: "three_passes D W Sp b [] = []"
  by (simp add: three_passes_def sub_each_single)

lemma three_passes_kept:
  assumes "W c" "\<not> Sp c" "\<not> D c"
  shows "three_passes D W Sp b (c # cs) = c # three_passes D W Sp b cs"
  using assms by (simp add: three_passes_def sub_each_single)

lemma three_passes_sep_kept:
  assumes b: "Sp b" and c: "\<not> (W c \<and> \<not> Sp c \<and> \<not> D c)"
    and cs: "cs = [] \<or> (W (hd cs) \<and> \<not> Sp (hd cs) \<and> \<not> D (hd cs))"
  shows "three_passes D W Sp b (c # cs) = b # three_passes D W Sp b cs"
proof (cases cs)
  case Nil
  with b c show ?thesis
    by (cases "D c") (auto simp: three_passes_def sub_each_single)
next
  case (Cons k ks)
  with cs have k: "W k" "\<not> Sp k" "\<not> D k"
    by simp_all
  show ?thesis
  proof (cases "D c")
    case True
    with b k Cons show ?thesis
      by (simp add: three_passes_def sub_each_single)
  next
    case False
    with c have "Sp (if \<not> W c \<and> \<not> Sp c then b else c)"
      using b by auto
    with False b k Cons show ?thesis
      by (simp add: three_passes_def sub_each_single)
  qed
qed

lemma three_passes_sep_sep:
  assumes b: "Sp b" and c: "\<not> (W c \<and> \<not> Sp c \<and> \<not> D c)" and d: "\<not> (W d \<and> \<not> Sp d \<and> \<not> D d)"
  shows "three_passes D W Sp b (c # d # ds) = three_passes D W Sp b (d # ds)"
proof -
  have qc: "Sp (if \<not> W c \<and> \<not> Sp c then b else c)" if "\<not> D c"
    using that c b by auto
  have qd: "Sp (if \<not> W d \<and> \<not> Sp d then b else d)" if "\<not> D d"
    using that d b by auto
  show ?thesis
  proof (cases "D c")
    case Dc: True
    show ?thesis
    proof (cases "D d")
      case True
      with Dc show ?thesis
        by (simp add: three_passes_def)
    next
      case False
      with Dc b qd [OF False] show ?thesis
        by (simp add: three_passes_def sub_each_single)
    qed
  next
    case nDc: False
    show ?thesis
    proof (cases "D d")
      case True
      with nDc b qc [OF nDc] show ?thesis
        by (simp add: three_passes_def sub_each_single)
    next
      case False
      with nDc qc [OF nDc] qd [OF False] show ?thesis
        by (simp add: three_passes_def sub_each_single)
    qed
  qed
qed

lemma three_passes_sep:
  assumes b: "Sp b" and c: "\<not> (W c \<and> \<not> Sp c \<and> \<not> D c)"
  shows "three_passes D W Sp b (c # cs)
       = b # three_passes D W Sp b (dropWhile (\<lambda>c. \<not> (W c \<and> \<not> Sp c \<and> \<not> D c)) cs)"
  using c
proof (induction cs arbitrary: c)
  case Nil
  then show ?case
    using three_passes_sep_kept [where Sp = Sp and b = b and W = W and D = D and c = c
        and cs = "[]"] b by simp
next
  case (Cons d ds)
  show ?case
  proof (cases "W d \<and> \<not> Sp d \<and> \<not> D d")
    case True
    then show ?thesis
      using three_passes_sep_kept [where Sp = Sp and b = b and W = W and D = D and c = c
          and cs = "d # ds"] b Cons.prems by simp
  next
    case False
    then show ?thesis
      using three_passes_sep_sep [where Sp = Sp and b = b and W = W and D = D and c = c
          and d = d and ds = ds] b Cons.prems Cons.IH [OF False] by simp
  qed
qed

lemma three_passes_one:
  assumes b: "Sp b"
  shows "three_passes D W Sp b t = sub_runs (\<lambda>c. \<not> (W c \<and> \<not> Sp c \<and> \<not> D c)) [b] t"
proof (induction t rule: length_induct)
  case (1 t)
  show ?case
  proof (cases t)
    case Nil
    then show ?thesis by (simp add: three_passes_Nil)
  next
    case (Cons c cs)
    let ?N = "\<lambda>c. \<not> (W c \<and> \<not> Sp c \<and> \<not> D c)"
    show ?thesis
    proof (cases "?N c")
      case True
      have "length (dropWhile ?N cs) < length t"
        using Cons length_dropWhile_le [of ?N cs] by simp
      then have "three_passes D W Sp b (dropWhile ?N cs) = sub_runs ?N [b] (dropWhile ?N cs)"
        using 1 by blast
      with True Cons show ?thesis
        using three_passes_sep [where Sp = Sp and b = b and W = W and D = D and c = c
            and cs = cs] b by simp
    next
      case False
      have "three_passes D W Sp b cs = sub_runs ?N [b] cs"
        using 1 Cons by simp
      with False Cons show ?thesis
        using three_passes_kept [of W c Sp D b cs] by simp
    qed
  qed
qed

subsection \<open>The words of a text\<close>

lemma words_of_dropWhile: "words_of K (dropWhile (\<lambda>c. \<not> K c) t) = words_of K t"
  by (induction t) simp_all


lemma words_of_words:
  "w \<in> set (words_of K t) \<Longrightarrow> w \<noteq> [] \<and> (\<forall>c \<in> set w. K c)"
proof (induction K t rule: words_of.induct)
  case (1 K)
  then show ?case by simp
next
  case (2 K c cs)
  show ?case
  proof (cases "K c")
    case True
    with 2 show ?thesis
      by (auto dest: set_takeWhileD)
  next
    case False
    with 2 show ?thesis by simp
  qed
qed

lemma set_unwords: "set (unwords b ws) \<subseteq> insert b (\<Union> (set ` set ws))"
  by (induction b ws rule: unwords.induct) auto

lemma unwords_nonempty: "w \<noteq> [] \<Longrightarrow> unwords b (w # ws) \<noteq> []"
  by (cases ws) simp_all

lemma sub_runs_kept_run:
  "\<forall>c \<in> set r. \<not> N c \<Longrightarrow> sub_runs N rep (r @ x) = r @ sub_runs N rep x"
  by (induction r) simp_all

lemma rstrip_append:
  assumes "rev (dropWhile sp (rev y)) \<noteq> []"
  shows "rev (dropWhile sp (rev (p @ y))) = p @ rev (dropWhile sp (rev y))"
proof -
  from assms have "dropWhile sp (rev y) \<noteq> []"
    by simp
  then obtain x where "x \<in> set (rev y)" "\<not> sp x"
    by (auto simp: dropWhile_eq_Nil_conv)
  then have "dropWhile sp (rev y @ rev p) = dropWhile sp (rev y) @ rev p"
    by (rule dropWhile_append1)
  then show ?thesis
    by simp
qed

lemma rstrip_words:
  assumes b: "sp b" and K: "\<And>c. K c \<Longrightarrow> \<not> sp c"
    and u: "u = [] \<or> K (hd u)"
  shows "rev (dropWhile sp (rev (sub_runs (\<lambda>c. \<not> K c) [b] u))) = unwords b (words_of K u)"
  using u
proof (induction u rule: length_induct)
  case (1 u)
  let ?N = "\<lambda>c. \<not> K c"
  show ?case
  proof (cases u)
    case Nil
    then show ?thesis by simp
  next
    case (Cons c cs)
    with 1(2) have Kc: "K c"
      by simp
    let ?r = "c # takeWhile K cs"
    let ?rest = "dropWhile K cs"
    have u: "u = ?r @ ?rest"
      using Cons by simp
    have allK: "\<forall>x \<in> set ?r. \<not> ?N x"
      using Kc by (auto dest: set_takeWhileD)
    have run: "sub_runs ?N [b] u = ?r @ sub_runs ?N [b] ?rest"
      unfolding u using allK by (rule sub_runs_kept_run)
    have words: "words_of K u = ?r # words_of K ?rest"
      using Cons Kc by simp
    have "K (last ?r)"
      using allK last_in_set [of ?r] by blast
    then have keep: "rev (dropWhile sp (rev ?r)) = ?r"
      using K by (intro rstrip_keep) auto
    show ?thesis
    proof (cases ?rest)
      case Nil
      then show ?thesis
        unfolding run words using keep by (simp del: dropWhile_eq_Nil_conv)
    next
      case rest: (Cons d ds)
      have "\<not> K (hd ?rest)"
        using rest hd_dropWhile [of K cs] by simp
      then have Nd: "\<not> K d"
        using rest by simp
      let ?u' = "dropWhile ?N ds"
      have run': "sub_runs ?N [b] ?rest = b # sub_runs ?N [b] ?u'"
        unfolding rest using Nd by simp
      have words': "words_of K ?rest = words_of K ?u'"
        unfolding rest using Nd by (simp add: words_of_dropWhile)
      have "length ?rest \<le> length cs"
        by (rule length_dropWhile_le)
      then have "length ds < length cs"
        unfolding rest by simp
      then have len: "length ?u' < length u"
        using length_dropWhile_le [of ?N ds] Cons by simp
      have hd': "?u' = [] \<or> K (hd ?u')"
        using hd_dropWhile [of ?N ds] by blast
      have IH: "rev (dropWhile sp (rev (sub_runs ?N [b] ?u'))) = unwords b (words_of K ?u')"
        using 1(1) len hd' by blast
      show ?thesis
      proof (cases ?u')
        case Nil
        have "rev (dropWhile sp (rev (?r @ [b]))) = rev (dropWhile sp (rev ?r))"
          using b by simp
        then show ?thesis
          unfolding run run' words words' Nil using keep by simp
      next
        case u': (Cons k ks)
        with hd' have "K k"
          by simp
        then obtain w ws where ws: "words_of K ?u' = w # ws" "w \<noteq> []"
          unfolding u' by simp
        then have "unwords b (words_of K ?u') \<noteq> []"
          by (simp add: unwords_nonempty)
        then have ne: "rev (dropWhile sp (rev (sub_runs ?N [b] ?u'))) \<noteq> []"
          using IH by simp
        have "rev (dropWhile sp (rev ((?r @ [b]) @ sub_runs ?N [b] ?u')))
            = (?r @ [b]) @ rev (dropWhile sp (rev (sub_runs ?N [b] ?u')))"
          using ne by (rule rstrip_append)
        then have "rev (dropWhile sp (rev (sub_runs ?N [b] u)))
            = ?r @ b # unwords b (words_of K ?u')"
          unfolding run run' IH by simp
        then show ?thesis
          unfolding words words' ws by simp
      qed
    qed
  qed
qed

lemma lstrip_sub_runs:
  assumes b: "sp b" and K: "\<And>c. K c \<Longrightarrow> \<not> sp c"
  shows "dropWhile sp (sub_runs (\<lambda>c. \<not> K c) [b] t)
       = sub_runs (\<lambda>c. \<not> K c) [b] (dropWhile (\<lambda>c. \<not> K c) t)"
proof (cases t)
  case Nil
  then show ?thesis by simp
next
  case (Cons c cs)
  let ?N = "\<lambda>c. \<not> K c"
  show ?thesis
  proof (cases "K c")
    case True
    with Cons K show ?thesis by simp
  next
    case False
    let ?u = "dropWhile ?N cs"
    have "dropWhile sp (sub_runs ?N [b] ?u) = sub_runs ?N [b] ?u"
    proof (cases ?u)
      case Nil
      show ?thesis
        unfolding Nil by simp
    next
      case u: (Cons k ks)
      have "\<not> ?N (hd ?u)"
        using u hd_dropWhile [of ?N cs] by simp
      then have "K k"
        using u by simp
      then show ?thesis
        unfolding u using K by simp
    qed
    with False Cons b show ?thesis
      by simp
  qed
qed

lemma ustrip_sub_runs_words:
  assumes b: "sp b" and K: "\<And>c. K c \<Longrightarrow> \<not> sp c"
  shows "ustrip sp (sub_runs (\<lambda>c. \<not> K c) [b] t) = unwords b (words_of K t)"
proof -
  let ?N = "\<lambda>c. \<not> K c"
  have hd: "dropWhile ?N t = [] \<or> K (hd (dropWhile ?N t))"
    using hd_dropWhile [of ?N t] by blast
  have l: "dropWhile sp (sub_runs ?N [b] t) = sub_runs ?N [b] (dropWhile ?N t)"
    using b K by (rule lstrip_sub_runs)
  have "ustrip sp (sub_runs ?N [b] t)
      = rev (dropWhile sp (rev (sub_runs ?N [b] (dropWhile ?N t))))"
    unfolding ustrip_def l ..
  also have "\<dots> = unwords b (words_of K (dropWhile ?N t))"
    using b K hd by (rule rstrip_words)
  finally show ?thesis
    by (simp add: words_of_dropWhile)
qed

subsection \<open>Shape of the normalised text\<close>

lemma text_clean_unwords:
  assumes "is_space db 32"
  shows "text_clean db s = unwords 32 (words_of (kept db) (py_lower db s))"
proof -
  have n: "(\<lambda>c. \<not> (is_word db c \<and> \<not> is_space db c \<and> \<not> is_decimal db c)) = (\<lambda>c. \<not> kept db c)"
    by (simp add: kept_def)
  have "text_clean db s
      = ustrip (is_space db)
          (three_passes (is_decimal db) (is_word db) (is_space db) 32 (py_lower db s))"
    by (simp add: text_clean_def three_passes_def)
  also have "\<dots> = ustrip (is_space db) (sub_runs (\<lambda>c. \<not> kept db c) [32] (py_lower db s))"
    using three_passes_one [where Sp = "is_space db" and b = 32 and D = "is_decimal db"
        and W = "is_word db" and t = "py_lower db s"] assms
    by (simp only: n)
  also have "\<dots> = unwords 32 (words_of (kept db) (py_lower db s))"
    using assms by (intro ustrip_sub_runs_words) (simp_all add: kept_def)
  finally show ?thesis .
qed

text \<open>
  \<^bold>\<open>C9.\<close> As amended. For every input string the normalised text is the words of the
  lower-cased input with one blank between two words, a word being a maximal run of word
  characters that are neither whitespace nor decimal digits. So every character of it is
  such a character or a blank, none is a decimal digit, no two blanks follow each other,
  and it is trimmed. The facts about the tables this rests on are that the blank is
  whitespace and not a decimal digit.
\<close>

theorem text_clean_words:
  assumes "is_space db 32" and "\<not> is_decimal db 32"
  shows "text_clean db s = unwords 32 (words_of (kept db) (py_lower db s))
       \<and> list_all (\<lambda>c. kept db c \<or> c = 32) (text_clean db s)
       \<and> list_all (\<lambda>c. \<not> is_decimal db c) (text_clean db s)
       \<and> successively (\<lambda>x y. \<not> (x = 32 \<and> y = 32)) (text_clean db s)
       \<and> ustrip (is_space db) (text_clean db s) = text_clean db s
       \<and> Text_Clean db [Text s] = Inr [Text (text_clean db s)]"
proof (intro conjI)
  show u: "text_clean db s = unwords 32 (words_of (kept db) (py_lower db s))"
    using assms(1) by (rule text_clean_unwords)
  show k: "list_all (\<lambda>c. kept db c \<or> c = 32) (text_clean db s)"
    unfolding u list_all_iff
    using set_unwords [of 32 "words_of (kept db) (py_lower db s)"]
      words_of_words [of _ "kept db" "py_lower db s"]
    by blast
  show "list_all (\<lambda>c. \<not> is_decimal db c) (text_clean db s)"
    using k assms(2) unfolding list_all_iff by (auto simp: kept_def)
  have "successively (\<lambda>x y. \<not> (is_space db x \<and> is_space db y)) (text_clean db s)"
    unfolding text_clean_def using assms(1)
    by (intro successively_ustrip sub_runs_successively)
  then show "successively (\<lambda>x y. \<not> (x = 32 \<and> y = 32)) (text_clean db s)"
    by (rule successively_mono) (use assms(1) in auto)
  show "ustrip (is_space db) (text_clean db s) = text_clean db s"
    unfolding text_clean_def by (rule ustrip_ustrip)
  show "Text_Clean db [Text s] = Inr [Text (text_clean db s)]"
    by (simp add: Text_Clean_cells)
qed

theorem text_clean_words_witness:
  "is_space example_unicode 32 \<and> \<not> is_decimal example_unicode 32
   \<and> text_clean example_unicode (codes ''Hello,  World 123 abc4d  C++ !'')
       = codes ''hello world abc d c''
   \<and> Text_Clean example_unicode [Text (codes ''Hello,  World 123 abc4d  C++ !'')]
       = Inr [Text (codes ''hello world abc d c'')]"
proof -
  have h1: "is_space example_unicode 32" and h2: "\<not> is_decimal example_unicode 32"
    by (simp_all add: example_unicode_def)
  have w: "unwords 32 (words_of (kept example_unicode)
        (py_lower example_unicode (codes ''Hello,  World 123 abc4d  C++ !'')))
      = codes ''hello world abc d c''"
    by code_simp
  note t = text_clean_words [OF h1 h2, of "codes ''Hello,  World 123 abc4d  C++ !''"]
  from t [THEN conjunct1] w
  have e: "text_clean example_unicode (codes ''Hello,  World 123 abc4d  C++ !'')
      = codes ''hello world abc d c''"
    by simp
  from t have "Text_Clean example_unicode [Text (codes ''Hello,  World 123 abc4d  C++ !'')]
      = Inr [Text (text_clean example_unicode (codes ''Hello,  World 123 abc4d  C++ !''))]"
    by blast
  with e h1 h2 show ?thesis
    by simp
qed

text \<open>
  The claim as it stands fails where a digit is any character of \<^verbatim>\<open>str.isdigit\<close>: the
  superscript two is such a digit but no decimal digit, it is a word character, and the
  normaliser keeps it. The text \<^verbatim>\<open>3\<close>, superscript two, blank, \<^verbatim>\<open>x\<close> is normalised to
  superscript two, blank, \<^verbatim>\<open>x\<close>.
\<close>

theorem text_clean_digit_counterexample:
  "text_clean example_unicode (codes ''3'' @ [178] @ codes '' x'') = [178] @ codes '' x''
   \<and> Text_Clean example_unicode [Text (codes ''3'' @ [178] @ codes '' x'')]
       = Inr [Text ([178] @ codes '' x'')]
   \<and> is_digit example_unicode 178
   \<and> \<not> is_decimal example_unicode 178"
  by code_simp

subsection \<open>Malformed input\<close>





end
